theory Spec2Isabelle
  imports Main "HOL-Library.AList"
begin

section \<open>Data model (features/sse/types)\<close>

text \<open>
  \<^verbatim>\<open>interface SSEEvent { event: string; data: string; id?: string; retry?: number }\<close>
  The optional fields are \<open>option\<close>s (\<open>None\<close> is \<^verbatim>\<open>undefined\<close>). The retry hint is a
  count of milliseconds: the model covers the safe integers of JavaScript, those of
  magnitude below \<open>2\<^sup>5\<^sup>3\<close>, which a number holds exactly.
  The field \<^verbatim>\<open>id\<close> is written \<open>id_ev\<close> (\<open>id\<close> is the identity function of HOL).
\<close>

record SSEEvent =
  event :: string
  data :: string
  id_ev :: "string option"
  retry :: "int option"

text \<open>
  A \<^verbatim>\<open>ReadableStreamDefaultController\<close> is an object of the platform. What the manager
  uses of it: \<^verbatim>\<open>enqueue\<close> appends a chunk and throws once the stream is closed,
  \<^verbatim>\<open>close\<close> closes it and throws when it is closed already. A throw is \<open>None\<close>.
\<close>

record Controller =
  closed :: bool
  queue :: "string list"

definition enqueue :: "Controller \<Rightarrow> string \<Rightarrow> Controller option" where
  "enqueue ctl chunk =
     (if closed ctl then None else Some (ctl\<lparr>queue := queue ctl @ [chunk]\<rparr>))"

definition close :: "Controller \<Rightarrow> Controller option" where
  "close ctl = (if closed ctl then None else Some (ctl\<lparr>closed := True\<rparr>))"

text \<open>
  \<^verbatim>\<open>interface SSEClient { id; userId?; sessionId?; controller; isConnected; lastPing;
  events; retryTimeout }\<close>. The controller is a reference: controllers live in a store
  of the manager state, indexed by \<open>nat\<close> addresses, so that a stream closed by the route
  handler, or one controller shared by several clients, is expressible. The field
  \<^verbatim>\<open>id\<close> is written \<open>id_cl\<close>.
\<close>

record SSEClient =
  id_cl :: string
  userId :: "string option"
  sessionId :: "string option"
  controller :: nat
  isConnected :: bool
  lastPing :: int
  events :: "string list"
  retryTimeout :: int

text \<open>
  \<^verbatim>\<open>SSEManagerConfig\<close> has four optional numbers (fields \<open>cfg_\<dots>\<close> here); the manager
  keeps a \<^verbatim>\<open>Required<SSEManagerConfig>\<close>, the record \<open>RequiredConfig\<close>.
\<close>

record SSEManagerConfig =
  cfg_heartbeatInterval :: "int option"
  cfg_maxClientsPerUser :: "int option"
  cfg_cleanupInterval :: "int option"
  cfg_eventRetentionTime :: "int option"

record RequiredConfig =
  heartbeatInterval :: int
  maxClientsPerUser :: int
  cleanupInterval :: int
  eventRetentionTime :: int

section \<open>Numbers in template strings\<close>

text \<open>
  \<^verbatim>\<open>`${n}`\<close> of a safe integer \<open>n\<close> (magnitude below \<open>2\<^sup>5\<^sup>3\<close>) is its decimal
  representation, with a minus sign when negative. \<open>show_int\<close> stands for the
  conversion on that range only: beyond it JavaScript prints the shortest digits that
  read back as the same number, and an exponent from \<open>10\<^sup>2\<^sup>1\<close> on. The times and retry
  hints it is applied to are safe integers.
\<close>

definition digit_char :: "nat \<Rightarrow> char" where
  "digit_char d =
     (if d = 0 then CHR ''0'' else if d = 1 then CHR ''1'' else if d = 2 then CHR ''2''
      else if d = 3 then CHR ''3'' else if d = 4 then CHR ''4'' else if d = 5 then CHR ''5''
      else if d = 6 then CHR ''6'' else if d = 7 then CHR ''7'' else if d = 8 then CHR ''8''
      else CHR ''9'')"

fun show_nat :: "nat \<Rightarrow> string" where
  "show_nat n = (if n < 10 then [digit_char n] else show_nat (n div 10) @ [digit_char (n mod 10)])"

declare show_nat.simps [simp del]

definition show_int :: "int \<Rightarrow> string" where
  "show_int i = (if i < 0 then CHR ''-'' # show_nat (nat (- i)) else show_nat (nat i))"

section \<open>The wire format: \<^verbatim>\<open>SSEManager.formatSSEEvent\<close>\<close>

text \<open>
  Each field is written under a truthiness test: \<^verbatim>\<open>if (event.id)\<close> is false for
  \<^verbatim>\<open>undefined\<close> and for the empty string, \<^verbatim>\<open>if (event.retry)\<close> for \<^verbatim>\<open>undefined\<close>
  and for \<open>0\<close>. \<open>CHR 0x0A\<close> is the line feed.
\<close>

definition formatSSEEvent :: "SSEEvent \<Rightarrow> string" where
  "formatSSEEvent ev =
     (let formatted = [];
          formatted = (case id_ev ev of
                         None \<Rightarrow> formatted
                       | Some i \<Rightarrow> if i \<noteq> [] then formatted @ ''id: '' @ i @ [CHR 0x0A] else formatted);
          formatted = (if event ev \<noteq> [] then formatted @ ''event: '' @ event ev @ [CHR 0x0A]
                       else formatted);
          formatted = (if data ev \<noteq> [] then formatted @ ''data: '' @ data ev @ [CHR 0x0A]
                       else formatted);
          formatted = (case retry ev of
                         None \<Rightarrow> formatted
                       | Some r \<Rightarrow> if r \<noteq> 0 then formatted @ ''retry: '' @ show_int r @ [CHR 0x0A]
                                   else formatted)
      in formatted @ [CHR 0x0A])"

section \<open>Reading the wire format back\<close>

text \<open>
  The client side is the browser's \<^verbatim>\<open>EventSource\<close>, which is not code of the repository.
  \<open>parse_wire\<close> is written from the words of the specification, section 6: the fields in the
  order id, event, data, retry, each as \<^verbatim>\<open>name: value\n\<close>, the optional ones (id, retry)
  skipped when absent, then a blank line. It is compared with \<open>formatSSEEvent\<close>.
\<close>

fun position :: "char \<Rightarrow> string \<Rightarrow> nat option" where
  "position c [] = None"
| "position c (x # xs) = (if c = x then Some 0 else map_option Suc (position c xs))"

definition digit_of :: "char \<Rightarrow> nat option" where
  "digit_of c = position c ''0123456789''"

fun parse_digits :: "nat \<Rightarrow> string \<Rightarrow> nat option" where
  "parse_digits acc [] = Some acc"
| "parse_digits acc (c # cs) =
     (case digit_of c of None \<Rightarrow> None | Some d \<Rightarrow> parse_digits (10 * acc + d) cs)"

definition parse_nat :: "string \<Rightarrow> nat option" where
  "parse_nat s = (if s = [] then None else parse_digits 0 s)"

definition parse_int :: "string \<Rightarrow> int option" where
  "parse_int s =
     (case s of
        [] \<Rightarrow> None
      | c # cs \<Rightarrow> if c = CHR ''-'' then map_option (\<lambda>n. - int n) (parse_nat cs)
                  else map_option int (parse_nat s))"

fun take_line :: "string \<Rightarrow> (string \<times> string) option" where
  "take_line [] = None"
| "take_line (c # cs) =
     (if c = CHR 0x0A then Some ([], cs)
      else (case take_line cs of None \<Rightarrow> None | Some (l, r) \<Rightarrow> Some (c # l, r)))"

fun strip_prefix :: "string \<Rightarrow> string \<Rightarrow> string option" where
  "strip_prefix [] s = Some s"
| "strip_prefix (p # ps) [] = None"
| "strip_prefix (p # ps) (c # cs) = (if p = c then strip_prefix ps cs else None)"

definition parse_field :: "string \<Rightarrow> string \<Rightarrow> (string \<times> string) option" where
  "parse_field name text =
     (case take_line text of
        None \<Rightarrow> None
      | Some (l, r) \<Rightarrow> (case strip_prefix name l of None \<Rightarrow> None | Some v \<Rightarrow> Some (v, r)))"

definition parse_wire :: "string \<Rightarrow> SSEEvent option" where
  "parse_wire text =
     (let (i, text) = (case parse_field ''id: '' text of
                         None \<Rightarrow> (None, text) | Some (v, r) \<Rightarrow> (Some v, r))
      in case parse_field ''event: '' text of
           None \<Rightarrow> None
         | Some (t, text) \<Rightarrow>
             (case parse_field ''data: '' text of
                None \<Rightarrow> None
              | Some (d, text) \<Rightarrow>
                  (case parse_field ''retry: '' text of
                     None \<Rightarrow>
                       if text = [CHR 0x0A]
                       then Some \<lparr>event = t, data = d, id_ev = i, retry = None\<rparr> else None
                   | Some (rs, text) \<Rightarrow>
                       (case parse_int rs of
                          None \<Rightarrow> None
                        | Some r \<Rightarrow>
                            if text = [CHR 0x0A]
                            then Some \<lparr>event = t, data = d, id_ev = i, retry = Some r\<rparr>
                            else None))))"

section \<open>The connection registry: \<^verbatim>\<open>class SSEManager\<close>\<close>

text \<open>
  A JavaScript \<^verbatim>\<open>Map\<close> keeps its keys in insertion order and a \<^verbatim>\<open>Set\<close> its elements: the
  three maps are association lists (\<open>map_of\<close> is \<^verbatim>\<open>get\<close>, \<open>AList.update\<close> is \<^verbatim>\<open>set\<close>: in
  place for a key that is present, at the end for a new one, \<open>AList.delete\<close> is
  \<^verbatim>\<open>delete\<close>), and a set of client ids is a list without duplicates, oldest first.
  The two timers are the flags \<open>heartbeatTimer\<close> and \<open>cleanupTimer\<close> (the handle is not
  \<^verbatim>\<open>null\<close>). \<open>controllers\<close> is the store of the controller objects.

  Client objects are kept by value: a client handed to \<open>addClient\<close> is a new object, as
  the route handler builds one for each request. \<^verbatim>\<open>saveClientInfo\<close> writes a snapshot to a
  file asynchronously and never touches the maps; it is left out, as is the logging.
  \<^verbatim>\<open>Date.now()\<close> is the parameter \<open>now\<close> of the operations that read the clock.
\<close>

type_synonym client_index = "(string \<times> string list) list"

record SSEManager =
  clients :: "(string \<times> SSEClient) list"
  userClients :: client_index
  sessionClients :: client_index
  heartbeatTimer :: bool
  cleanupTimer :: bool
  config :: RequiredConfig
  controllers :: "nat \<Rightarrow> Controller"

text \<open>The constructor: every absent option takes its default (\<^verbatim>\<open>config.x ?? default\<close>).\<close>

definition resolveConfig :: "SSEManagerConfig \<Rightarrow> RequiredConfig" where
  "resolveConfig cfg =
     \<lparr>heartbeatInterval = (case cfg_heartbeatInterval cfg of None \<Rightarrow> 30000 | Some v \<Rightarrow> v),
      maxClientsPerUser = (case cfg_maxClientsPerUser cfg of None \<Rightarrow> 5 | Some v \<Rightarrow> v),
      cleanupInterval = (case cfg_cleanupInterval cfg of None \<Rightarrow> 60000 | Some v \<Rightarrow> v),
      eventRetentionTime = (case cfg_eventRetentionTime cfg of None \<Rightarrow> 300000 | Some v \<Rightarrow> v)\<rparr>"

definition newSSEManager :: "SSEManagerConfig \<Rightarrow> (nat \<Rightarrow> Controller) \<Rightarrow> SSEManager" where
  "newSSEManager cfg ctls =
     \<lparr>clients = [], userClients = [], sessionClients = [],
      heartbeatTimer = True, cleanupTimer = True,
      config = resolveConfig cfg, controllers = ctls\<rparr>"

text \<open>\<^verbatim>\<open>Set.prototype.add\<close>: a new element goes to the end.\<close>

definition set_add :: "string list \<Rightarrow> string \<Rightarrow> string list" where
  "set_add s x = (if x \<in> set s then s else s @ [x])"

text \<open>
  \<^verbatim>\<open>if (!index.has(key)) index.set(key, new Set()); index.get(key)!.add(clientId)\<close>,
  the same three lines for the user and the session registry of \<^verbatim>\<open>addClient\<close>.
\<close>

definition index_add :: "client_index \<Rightarrow> string \<Rightarrow> string \<Rightarrow> client_index" where
  "index_add idx key clientId =
     (let idx = (if map_of idx key = None then AList.update key [] idx else idx)
      in case map_of idx key of
           None \<Rightarrow> idx
         | Some s \<Rightarrow> AList.update key (set_add s clientId) idx)"

text \<open>
  The removal from one registry in \<^verbatim>\<open>removeClient\<close>: under \<^verbatim>\<open>if (client.userId)\<close>,
  delete the id from the set when there is one, and delete the set when it is empty.
\<close>

definition index_remove :: "client_index \<Rightarrow> string option \<Rightarrow> string \<Rightarrow> client_index" where
  "index_remove idx key clientId =
     (case key of
        None \<Rightarrow> idx
      | Some k \<Rightarrow>
          if k = [] then idx
          else (case map_of idx k of
                  None \<Rightarrow> idx
                | Some s \<Rightarrow>
                    (let s = removeAll clientId s
                     in if length s = 0 then AList.delete k idx else AList.update k s idx)))"

definition removeClient :: "SSEManager \<Rightarrow> string \<Rightarrow> SSEManager" where
  "removeClient st clientId =
     (case map_of (clients st) clientId of
        None \<Rightarrow> st
      | Some client \<Rightarrow>
          st\<lparr>clients := AList.delete clientId (clients st),
             userClients := index_remove (userClients st) (userId client) clientId,
             sessionClients := index_remove (sessionClients st) (sessionId client) clientId\<rparr>)"

text \<open>
  \<^verbatim>\<open>addClient\<close>. The eviction reads the first element of the user's set
  (\<^verbatim>\<open>values().next().value\<close>) and removes it under \<^verbatim>\<open>if (oldestClientId)\<close>, which is false
  for the empty string. The session registry is filled after the eviction.
\<close>

definition addClient :: "SSEManager \<Rightarrow> SSEClient \<Rightarrow> SSEManager" where
  "addClient st client =
     (let st = removeClient st (id_cl client);
          st = st\<lparr>clients := AList.update (id_cl client) client (clients st)\<rparr>;
          st = (case userId client of
                  None \<Rightarrow> st
                | Some u \<Rightarrow>
                    if u = [] then st
                    else
                      (let st = st\<lparr>userClients := index_add (userClients st) u (id_cl client)\<rparr>
                       in case map_of (userClients st) u of
                            None \<Rightarrow> st
                          | Some userClientSet \<Rightarrow>
                              if int (length userClientSet) > maxClientsPerUser (config st)
                              then (case userClientSet of
                                      [] \<Rightarrow> st
                                    | oldestClientId # _ \<Rightarrow>
                                        if oldestClientId \<noteq> [] then removeClient st oldestClientId
                                        else st)
                              else st));
          st = (case sessionId client of
                  None \<Rightarrow> st
                | Some s \<Rightarrow>
                    if s = [] then st
                    else st\<lparr>sessionClients := index_add (sessionClients st) s (id_cl client)\<rparr>)
      in st)"

text \<open>
  \<^verbatim>\<open>sendToClient\<close>: the guard \<^verbatim>\<open>if (!client?.isConnected) return false\<close> leaves the state
  as it is; a throw of \<^verbatim>\<open>enqueue\<close> is caught and the client removed.
\<close>

definition sendToClient :: "SSEManager \<Rightarrow> int \<Rightarrow> string \<Rightarrow> SSEEvent \<Rightarrow> bool \<times> SSEManager" where
  "sendToClient st now clientId ev =
     (case map_of (clients st) clientId of
        None \<Rightarrow> (False, st)
      | Some client \<Rightarrow>
          if \<not> isConnected client then (False, st)
          else (case enqueue (controllers st (controller client)) (formatSSEEvent ev) of
                  None \<Rightarrow> (False, removeClient st clientId)
                | Some ctl \<Rightarrow>
                    (True,
                     st\<lparr>controllers := (controllers st)(controller client := ctl),
                        clients := AList.update clientId (client\<lparr>lastPing := now\<rparr>) (clients st)\<rparr>)))"

text \<open>
  The loop \<^verbatim>\<open>for (const clientId of ids) if (!this.sendToClient(clientId, event))
  failedClients.push(clientId)\<close> of the three group sends. The set or map is iterated
  while \<^verbatim>\<open>sendToClient\<close> may delete the element being visited, and nothing else: the
  iteration visits the elements the collection had at the start, in order.
\<close>

fun send_loop ::
  "SSEManager \<Rightarrow> int \<Rightarrow> SSEEvent \<Rightarrow> string list \<Rightarrow> string list \<Rightarrow> SSEManager \<times> string list" where
  "send_loop st now ev [] failedClients = (st, failedClients)"
| "send_loop st now ev (clientId # rest) failedClients =
     (case sendToClient st now clientId ev of
        (ok, st') \<Rightarrow>
          send_loop st' now ev rest (if ok then failedClients else failedClients @ [clientId]))"

definition sendToUser :: "SSEManager \<Rightarrow> int \<Rightarrow> string \<Rightarrow> SSEEvent \<Rightarrow> SSEManager" where
  "sendToUser st now user ev =
     (case map_of (userClients st) user of
        None \<Rightarrow> st
      | Some userClientSet \<Rightarrow>
          (case send_loop st now ev userClientSet [] of
             (st', failedClients) \<Rightarrow> foldl removeClient st' failedClients))"

definition sendToSession :: "SSEManager \<Rightarrow> int \<Rightarrow> string \<Rightarrow> SSEEvent \<Rightarrow> SSEManager" where
  "sendToSession st now session ev =
     (case map_of (sessionClients st) session of
        None \<Rightarrow> st
      | Some sessionClientSet \<Rightarrow>
          (case send_loop st now ev sessionClientSet [] of
             (st', failedClients) \<Rightarrow> foldl removeClient st' failedClients))"

definition broadcast :: "SSEManager \<Rightarrow> int \<Rightarrow> SSEEvent \<Rightarrow> string list \<Rightarrow> SSEManager" where
  "broadcast st now ev excludeClientIds =
     (case send_loop st now ev
             (filter (\<lambda>clientId. clientId \<notin> set excludeClientIds) (map fst (clients st))) [] of
        (st', failedClients) \<Rightarrow> foldl removeClient st' failedClients)"

definition getClientCount :: "SSEManager \<Rightarrow> nat" where
  "getClientCount st = length (clients st)"

definition getClientCountForUser :: "SSEManager \<Rightarrow> string \<Rightarrow> nat" where
  "getClientCountForUser st user =
     (case map_of (userClients st) user of None \<Rightarrow> 0 | Some userSet \<Rightarrow> length userSet)"

definition getUserClients :: "SSEManager \<Rightarrow> string \<Rightarrow> string list" where
  "getUserClients st user =
     (case map_of (userClients st) user of None \<Rightarrow> [] | Some userSet \<Rightarrow> userSet)"

text \<open>\<^verbatim>\<open>JSON.stringify({ timestamp: Date.now() })\<close>; \<open>CHR 0x22\<close> is the double quote.\<close>

definition heartbeatEvent :: "int \<Rightarrow> SSEEvent" where
  "heartbeatEvent now =
     \<lparr>event = ''heartbeat'',
      data = ''{'' @ [CHR 0x22] @ ''timestamp'' @ [CHR 0x22] @ '':'' @ show_int now @ ''}'',
      id_ev = None, retry = None\<rparr>"

definition pingClient :: "SSEManager \<Rightarrow> int \<Rightarrow> string \<Rightarrow> bool \<times> SSEManager" where
  "pingClient st now clientId = sendToClient st now clientId (heartbeatEvent now)"

definition cleanup :: "SSEManager \<Rightarrow> int \<Rightarrow> SSEManager" where
  "cleanup st now =
     (let disconnectedClients =
            map fst (filter (\<lambda>(clientId, client).
                        now - lastPing client > heartbeatInterval (config st) * 2) (clients st))
      in foldl removeClient st disconnectedClients)"

text \<open>\<^verbatim>\<open>destroy\<close> closes every controller inside \<^verbatim>\<open>try/catch\<close> and clears the maps.\<close>

fun close_all :: "(nat \<Rightarrow> Controller) \<Rightarrow> (string \<times> SSEClient) list \<Rightarrow> nat \<Rightarrow> Controller" where
  "close_all ctls [] = ctls"
| "close_all ctls ((clientId, client) # rest) =
     close_all (case close (ctls (controller client)) of
                  None \<Rightarrow> ctls
                | Some ctl \<Rightarrow> ctls(controller client := ctl)) rest"

definition destroy :: "SSEManager \<Rightarrow> SSEManager" where
  "destroy st =
     st\<lparr>heartbeatTimer := False, cleanupTimer := False,
        controllers := close_all (controllers st) (clients st),
        clients := [], userClients := [], sessionClients := []\<rparr>"

section \<open>The public operations as steps\<close>

text \<open>
  One constructor for each public operation of the registry, with its arguments; a step
  pairs it with the time of the call.
\<close>

datatype operation =
    AddClient SSEClient
  | RemoveClient string
  | SendToClient string SSEEvent
  | SendToUser string SSEEvent
  | SendToSession string SSEEvent
  | Broadcast SSEEvent "string list"
  | PingClient string
  | Cleanup
  | Destroy

fun perform :: "SSEManager \<Rightarrow> int \<times> operation \<Rightarrow> SSEManager" where
  "perform st (now, AddClient client) = addClient st client"
| "perform st (now, RemoveClient clientId) = removeClient st clientId"
| "perform st (now, SendToClient clientId ev) = snd (sendToClient st now clientId ev)"
| "perform st (now, SendToUser user ev) = sendToUser st now user ev"
| "perform st (now, SendToSession session ev) = sendToSession st now session ev"
| "perform st (now, Broadcast ev excludeClientIds) = broadcast st now ev excludeClientIds"
| "perform st (now, PingClient clientId) = snd (pingClient st now clientId)"
| "perform st (now, Cleanup) = cleanup st now"
| "perform st (now, Destroy) = destroy st"

definition run :: "SSEManager \<Rightarrow> (int \<times> operation) list \<Rightarrow> SSEManager" where
  "run st ops = foldl perform st ops"

section \<open>Registry invariants\<close>

text \<open>The set an index holds for a key; no set is the empty one (\<^verbatim>\<open>getUserClients\<close>).\<close>

definition members :: "client_index \<Rightarrow> string \<Rightarrow> string list" where
  "members idx k = (case map_of idx k of None \<Rightarrow> [] | Some s \<Rightarrow> s)"

text \<open>
  An index is a \<^verbatim>\<open>Map\<close> of \<^verbatim>\<open>Set\<close>s (keys and elements without duplicates) with no empty
  set; it is consistent with the primary map when its set for \<open>k\<close> holds exactly the ids
  of the registered clients whose key (\<open>userId\<close> or \<open>sessionId\<close>) is the non-empty \<open>k\<close>.
\<close>

definition index_sets_ok :: "client_index \<Rightarrow> bool" where
  "index_sets_ok idx \<longleftrightarrow>
     distinct (map fst idx) \<and> (\<forall>k s. map_of idx k = Some s \<longrightarrow> s \<noteq> [] \<and> distinct s)"

definition index_consistent ::
  "(string \<rightharpoonup> SSEClient) \<Rightarrow> (SSEClient \<Rightarrow> string option) \<Rightarrow> client_index \<Rightarrow> bool" where
  "index_consistent m key idx \<longleftrightarrow>
     (\<forall>k i. i \<in> set (members idx k) \<longleftrightarrow> (\<exists>c. m i = Some c \<and> key c = Some k \<and> k \<noteq> []))"

definition index_ok ::
  "(SSEClient \<Rightarrow> string option) \<Rightarrow> (string \<times> SSEClient) list \<Rightarrow> client_index \<Rightarrow> bool" where
  "index_ok key cl idx \<longleftrightarrow>
     distinct (map fst cl) \<and> index_sets_ok idx \<and> index_consistent (map_of cl) key idx"

definition user_index_ok :: "SSEManager \<Rightarrow> bool" where
  "user_index_ok st \<longleftrightarrow> index_ok userId (clients st) (userClients st)"

definition session_index_ok :: "SSEManager \<Rightarrow> bool" where
  "session_index_ok st \<longleftrightarrow> index_ok sessionId (clients st) (sessionClients st)"

definition registry_ok :: "SSEManager \<Rightarrow> bool" where
  "registry_ok st \<longleftrightarrow> user_index_ok st \<and> session_index_ok st"

text \<open>
  Inside \<^verbatim>\<open>addClient\<close> the new client is in the primary map before it is in the
  indexes: the index is then consistent with the primary map without the id \<open>n\<close>.
\<close>

definition index_ok_except ::
  "string \<Rightarrow> (SSEClient \<Rightarrow> string option) \<Rightarrow> (string \<times> SSEClient) list \<Rightarrow> client_index \<Rightarrow> bool"
  where
  "index_ok_except n key cl idx \<longleftrightarrow>
     distinct (map fst cl) \<and> index_sets_ok idx \<and>
     index_consistent ((map_of cl)(n := None)) key idx"

text \<open>
  The states \<^verbatim>\<open>addClient\<close> goes through: after the primary map is written, and after
  the block of the user registry with its eviction (in \<open>enforce_ceiling\<close>).
\<close>

definition after_register :: "SSEManager \<Rightarrow> SSEClient \<Rightarrow> SSEManager" where
  "after_register st client =
     (removeClient st (id_cl client))
       \<lparr>clients := AList.update (id_cl client) client
                     (clients (removeClient st (id_cl client)))\<rparr>"

definition enforce_ceiling :: "SSEManager \<Rightarrow> string \<Rightarrow> SSEManager" where
  "enforce_ceiling st u =
     (case map_of (userClients st) u of
        None \<Rightarrow> st
      | Some userClientSet \<Rightarrow>
          if int (length userClientSet) > maxClientsPerUser (config st)
          then (case userClientSet of
                  [] \<Rightarrow> st
                | oldestClientId # _ \<Rightarrow>
                    if oldestClientId \<noteq> [] then removeClient st oldestClientId else st)
          else st)"

definition after_user :: "SSEManager \<Rightarrow> SSEClient \<Rightarrow> SSEManager" where
  "after_user st client =
     (case userId client of
        None \<Rightarrow> after_register st client
      | Some u \<Rightarrow>
          if u = [] then after_register st client
          else enforce_ceiling
                 ((after_register st client)
                    \<lparr>userClients :=
                       index_add (userClients (after_register st client)) u (id_cl client)\<rparr>) u)"

text \<open>
  The invariant in the words of the data model: an id of the primary map is in at most
  one set of the index, every id in a set of the index is in the primary map, and no set
  is empty.
\<close>

definition index_invariant :: "(string \<times> SSEClient) list \<Rightarrow> client_index \<Rightarrow> bool" where
  "index_invariant cl idx \<longleftrightarrow>
     (\<forall>i \<in> fst ` set cl. \<forall>e \<in> set idx. \<forall>e' \<in> set idx.
         i \<in> set (snd e) \<and> i \<in> set (snd e') \<longrightarrow> e = e') \<and>
     (\<forall>e \<in> set idx. \<forall>i \<in> set (snd e). i \<in> fst ` set cl) \<and>
     (\<forall>e \<in> set idx. snd e \<noteq> [])"

definition registry_invariant :: "SSEManager \<Rightarrow> bool" where
  "registry_invariant st \<longleftrightarrow>
     index_invariant (clients st) (userClients st) \<and>
     index_invariant (clients st) (sessionClients st)"

text \<open>An id is in no one of the three maps.\<close>

definition absent :: "string \<Rightarrow> SSEManager \<Rightarrow> bool" where
  "absent i st \<longleftrightarrow>
     i \<notin> fst ` set (clients st) \<and>
     list_all (\<lambda>e. i \<notin> set (snd e)) (userClients st) \<and>
     list_all (\<lambda>e. i \<notin> set (snd e)) (sessionClients st)"

text \<open>No user's connection count is above the ceiling.\<close>

definition ceiling_ok :: "SSEManager \<Rightarrow> bool" where
  "ceiling_ok st \<longleftrightarrow>
     (\<forall>u. int (getClientCountForUser st u) \<le> maxClientsPerUser (config st))"

text \<open>Every registered id is a non-empty string; an operation registers no empty id.\<close>

definition ids_nonempty :: "SSEManager \<Rightarrow> bool" where
  "ids_nonempty st \<longleftrightarrow> (\<forall>e \<in> set (clients st). fst e \<noteq> [])"

fun adds_nonempty_id :: "operation \<Rightarrow> bool" where
  "adds_nonempty_id (AddClient client) = (id_cl client \<noteq> [])"
| "adds_nonempty_id _ = True"

section \<open>Counting registrations\<close>

text \<open>
  For a sequence of \<^verbatim>\<open>addClient\<close> and \<^verbatim>\<open>removeClient\<close> calls: the ids added, whether the
  last call on an id (the last one that touches it) is a removal, and the count the
  specification expects, the number of distinct ids added minus the number of those
  removed afterwards.
\<close>

fun registration :: "operation \<Rightarrow> bool" where
  "registration (AddClient client) = True"
| "registration (RemoveClient clientId) = True"
| "registration _ = False"

fun added_ids :: "operation list \<Rightarrow> string list" where
  "added_ids [] = []"
| "added_ids (AddClient client # ops) = id_cl client # added_ids ops"
| "added_ids (_ # ops) = added_ids ops"

fun touches :: "string \<Rightarrow> operation \<Rightarrow> bool" where
  "touches i (AddClient client) = (id_cl client = i)"
| "touches i (RemoveClient clientId) = (clientId = i)"
| "touches i _ = False"

fun removed_after :: "string \<Rightarrow> operation list \<Rightarrow> bool" where
  "removed_after i [] = False"
| "removed_after i (op # ops) =
     (if list_ex (touches i) ops then removed_after i ops else op = RemoveClient i)"

definition expected_count :: "operation list \<Rightarrow> nat" where
  "expected_count ops =
     length (remdups (added_ids ops)) -
     length (filter (\<lambda>i. removed_after i ops) (remdups (added_ids ops)))"

text \<open>
  No \<^verbatim>\<open>addClient\<close> of the sequence finds its user at the ceiling: after the old client
  of the same id is removed, the user's set is smaller than \<^verbatim>\<open>maxClientsPerUser\<close>.
\<close>

fun no_eviction :: "SSEManager \<Rightarrow> (int \<times> operation) list \<Rightarrow> bool" where
  "no_eviction st [] = True"
| "no_eviction st ((now, op) # ops) =
     ((case op of
         AddClient client \<Rightarrow>
           (case userId client of
              None \<Rightarrow> True
            | Some u \<Rightarrow>
                u = [] \<or>
                int (getClientCountForUser (removeClient st (id_cl client)) u)
                  < maxClientsPerUser (config st))
       | _ \<Rightarrow> True) \<and>
      no_eviction (perform st (now, op)) ops)"

section \<open>The dispatch service: \<^verbatim>\<open>SSEService.sendToUser\<close>\<close>

text \<open>
  \<^verbatim>\<open>data: unknown\<close> is seen through \<^verbatim>\<open>JSON.stringify\<close> only: it has a JSON text, or it is
  \<^verbatim>\<open>undefined\<close> (the property is left out), or \<^verbatim>\<open>JSON.stringify\<close> throws (a cycle, a
  \<^verbatim>\<open>BigInt\<close>). \<^verbatim>\<open>await publish(\<dots>)\<close> resolves to a boolean or rejects;
  \<^verbatim>\<open>isAvailable()\<close> returns a boolean in every adapter of the repository and throws
  nothing. What \<^verbatim>\<open>publish\<close> does to the adapter's own store is not modelled.
\<close>

datatype json_data = Json string | Undefined | Unserialisable

datatype publish_result = Resolves bool | Rejects

record StorageAdapter =
  isAvailable :: bool
  publish :: "string \<Rightarrow> string \<Rightarrow> publish_result"

record SSEService =
  sseManager :: SSEManager
  storageAdapter :: StorageAdapter

definition REDIS_CHANNEL :: string where
  "REDIS_CHANNEL = ''sse:events''"

definition quoted :: "string \<Rightarrow> string" where
  "quoted s = [CHR 0x22] @ s @ [CHR 0x22]"

text \<open>\<^verbatim>\<open>JSON.stringify({ data, timestamp: Date.now() })\<close>; \<open>None\<close> when it throws.\<close>

definition stringify_event_data :: "json_data \<Rightarrow> int \<Rightarrow> string option" where
  "stringify_event_data d now =
     (case d of
        Unserialisable \<Rightarrow> None
      | Undefined \<Rightarrow> Some (''{'' @ quoted ''timestamp'' @ '':'' @ show_int now @ ''}'')
      | Json j \<Rightarrow>
          Some (''{'' @ quoted ''data'' @ '':'' @ j @ '','' @ quoted ''timestamp'' @ '':''
                @ show_int now @ ''}''))"

text \<open>
  The distribution envelope \<^verbatim>\<open>{ type: "user_event", userId, eventType, data, timestamp }\<close>;
  the strings are taken to need no escaping.
\<close>

definition stringify_payload :: "string \<Rightarrow> string \<Rightarrow> json_data \<Rightarrow> int \<Rightarrow> string option" where
  "stringify_payload user eventType d now =
     (case d of
        Unserialisable \<Rightarrow> None
      | Undefined \<Rightarrow>
          Some (''{'' @ quoted ''type'' @ '':'' @ quoted ''user_event'' @ '',''
                @ quoted ''userId'' @ '':'' @ quoted user @ '',''
                @ quoted ''eventType'' @ '':'' @ quoted eventType @ '',''
                @ quoted ''timestamp'' @ '':'' @ show_int now @ ''}'')
      | Json j \<Rightarrow>
          Some (''{'' @ quoted ''type'' @ '':'' @ quoted ''user_event'' @ '',''
                @ quoted ''userId'' @ '':'' @ quoted user @ '',''
                @ quoted ''eventType'' @ '':'' @ quoted eventType @ '',''
                @ quoted ''data'' @ '':'' @ j @ '',''
                @ quoted ''timestamp'' @ '':'' @ show_int now @ ''}''))"

text \<open>
  The private \<^verbatim>\<open>sendToUser\<close> of the service. The outer \<^verbatim>\<open>catch\<close> returns false: it is
  reached when the first \<^verbatim>\<open>JSON.stringify\<close> throws, before the manager is called. Inside
  the inner \<^verbatim>\<open>try\<close>, a throw of \<^verbatim>\<open>JSON.stringify\<close> or a rejection of \<^verbatim>\<open>publish\<close> is
  caught and the result is true; the value \<^verbatim>\<open>publish\<close> resolves to is not read.
\<close>

definition service_sendToUser ::
  "SSEService \<Rightarrow> int \<Rightarrow> string \<Rightarrow> string \<Rightarrow> json_data \<Rightarrow> bool \<times> SSEService" where
  "service_sendToUser svc now user eventType d =
     (case stringify_event_data d now of
        None \<Rightarrow> (False, svc)
      | Some text \<Rightarrow>
          (let ev = \<lparr>event = eventType, data = text, id_ev = None, retry = None\<rparr>;
               svc = svc\<lparr>sseManager := sendToUser (sseManager svc) now user ev\<rparr>
           in if isAvailable (storageAdapter svc)
              then (case stringify_payload user eventType d now of
                      None \<Rightarrow> (True, svc)
                    | Some message \<Rightarrow>
                        (case publish (storageAdapter svc) REDIS_CHANNEL message of
                           Resolves b \<Rightarrow> (True, svc)
                         | Rejects \<Rightarrow> (True, svc)))
              else (True, svc)))"

definition sendNotification :: "SSEService \<Rightarrow> int \<Rightarrow> string \<Rightarrow> json_data \<Rightarrow> bool \<times> SSEService" where
  "sendNotification svc now user d = service_sendToUser svc now user ''notification'' d"

definition sendReelUploadProgress ::
  "SSEService \<Rightarrow> int \<Rightarrow> string \<Rightarrow> json_data \<Rightarrow> bool \<times> SSEService" where
  "sendReelUploadProgress svc now user d =
     service_sendToUser svc now user ''reel_upload_progress'' d"

definition sendReelReady :: "SSEService \<Rightarrow> int \<Rightarrow> string \<Rightarrow> json_data \<Rightarrow> bool \<times> SSEService" where
  "sendReelReady svc now user d = service_sendToUser svc now user ''reel_ready'' d"

definition sendUserUpdate :: "SSEService \<Rightarrow> int \<Rightarrow> string \<Rightarrow> json_data \<Rightarrow> bool \<times> SSEService" where
  "sendUserUpdate svc now user d = service_sendToUser svc now user ''user_update'' d"

definition sendSystemAlert :: "SSEService \<Rightarrow> int \<Rightarrow> string \<Rightarrow> json_data \<Rightarrow> bool \<times> SSEService" where
  "sendSystemAlert svc now user d = service_sendToUser svc now user ''system_alert'' d"

definition sendCustomEvent ::
  "SSEService \<Rightarrow> int \<Rightarrow> string \<Rightarrow> string \<Rightarrow> json_data \<Rightarrow> bool \<times> SSEService" where
  "sendCustomEvent svc now user eventType d = service_sendToUser svc now user eventType d"

section \<open>What a group send leaves alone, and what it writes\<close>

text \<open>
  A connection is untouched between two states: its record in the primary map is the
  same, and it is in the same sets of the user and the session index.
\<close>

definition untouched :: "string \<Rightarrow> SSEManager \<Rightarrow> SSEManager \<Rightarrow> bool" where
  "untouched i st st' \<longleftrightarrow>
     map_of (clients st') i = map_of (clients st) i \<and>
     (\<forall>k. (i \<in> set (members (userClients st') k)) = (i \<in> set (members (userClients st) k))) \<and>
     (\<forall>k. (i \<in> set (members (sessionClients st') k)) =
          (i \<in> set (members (sessionClients st) k)))"






text \<open>
  The test of \<^verbatim>\<open>cleanup\<close> on a registered id: its client was last heard of more than
  two heartbeat intervals before \<open>now\<close>.
\<close>

definition stale :: "SSEManager \<Rightarrow> int \<Rightarrow> string \<Rightarrow> bool" where
  "stale st now i =
     (case map_of (clients st) i of
        None \<Rightarrow> False
      | Some client \<Rightarrow> now - lastPing client > heartbeatInterval (config st) * 2)"

section \<open>Example values\<close>

text \<open>
  Values for the concrete instances below: a configuration with nothing set and one with
  only \<^verbatim>\<open>maxClientsPerUser\<close>, a store of open and one of closed controllers, a connected
  client as the route handler builds it, and an event.
\<close>

definition plain_config :: SSEManagerConfig where
  "plain_config =
     \<lparr>cfg_heartbeatInterval = None, cfg_maxClientsPerUser = None,
      cfg_cleanupInterval = None, cfg_eventRetentionTime = None\<rparr>"

definition max_config :: "int \<Rightarrow> SSEManagerConfig" where
  "max_config n = plain_config\<lparr>cfg_maxClientsPerUser := Some n\<rparr>"

definition open_controllers :: "nat \<Rightarrow> Controller" where
  "open_controllers = (\<lambda>a. \<lparr>closed = False, queue = []\<rparr>)"

definition closed_controllers :: "nat \<Rightarrow> Controller" where
  "closed_controllers = (\<lambda>a. \<lparr>closed = True, queue = []\<rparr>)"

definition new_client :: "string \<Rightarrow> string option \<Rightarrow> string option \<Rightarrow> nat \<Rightarrow> SSEClient" where
  "new_client i u s a =
     \<lparr>id_cl = i, userId = u, sessionId = s, controller = a, isConnected = True,
      lastPing = 0, events = [], retryTimeout = 30000\<rparr>"

definition notification :: SSEEvent where
  "notification = \<lparr>event = ''notification'', data = ''{}'', id_ev = None, retry = None\<rparr>"

text \<open>The registry after the first client has connected, over a given controller store.\<close>

definition client1 :: SSEClient where
  "client1 = new_client ''c1'' (Some ''user123'') (Some ''session456'') 0"

definition one_client :: "(nat \<Rightarrow> Controller) \<Rightarrow> SSEManager" where
  "one_client ctls = addClient (newSSEManager plain_config ctls) client1"

text \<open>A second client of the same user, last heard of at time 50000.\<close>

definition client2 :: SSEClient where
  "client2 = (new_client ''c2'' (Some ''user123'') None 1)\<lparr>lastPing := 50000\<rparr>"

definition two_clients :: "(nat \<Rightarrow> Controller) \<Rightarrow> SSEManager" where
  "two_clients ctls = addClient (one_client ctls) client2"

text \<open>A client of another user in the same session, and the registry with both users.\<close>

definition client3 :: SSEClient where
  "client3 = new_client ''c3'' (Some ''user456'') (Some ''session456'') 2"

definition two_users :: "(nat \<Rightarrow> Controller) \<Rightarrow> SSEManager" where
  "two_users ctls = addClient (two_clients ctls) client3"



text \<open>
  With a ceiling of 2: the registry after two clients of \<open>user123\<close> have connected, and
  a third client of that user. With a ceiling of 1: a registry whose only client has the
  empty string as id.
\<close>

definition at_ceiling :: SSEManager where
  "at_ceiling =
     run (newSSEManager (max_config 2) open_controllers)
       [(0, AddClient client1), (0, AddClient client2)]"

definition client4 :: SSEClient where
  "client4 = new_client ''c4'' (Some ''user123'') None 3"

definition empty_id :: SSEManager where
  "empty_id =
     addClient (newSSEManager (max_config 1) open_controllers)
       (new_client [] (Some ''user123'') None 0)"

text \<open>
  Two sequences of registrations: one with a repeated id and a removal, under the default
  ceiling, and the first two clients of \<open>user123\<close> under a ceiling of 1.
\<close>

definition registrations :: "(int \<times> operation) list" where
  "registrations =
     [(0, AddClient client1), (1, AddClient client2), (2, RemoveClient ''c1''),
      (3, AddClient client2), (4, AddClient client3)]"

definition two_adds :: "(int \<times> operation) list" where
  "two_adds = [(0, AddClient client1), (1, AddClient client2)]"

section \<open>The wire format read back\<close>

lemma digit_of_digit_char: "d < 10 \<Longrightarrow> digit_of (digit_char d) = Some d"
proof -
  assume "d < 10"
  then have "d \<in> {0, 1, 2, 3, 4, 5, 6, 7, 8, 9}" by auto
  then show ?thesis by (auto simp: digit_of_def digit_char_def)
qed

lemma digit_char_not_special: "digit_char d \<noteq> CHR 0x0A" "digit_char d \<noteq> CHR ''-''"
  by (simp_all add: digit_char_def)

lemma parse_digits_append:
  "parse_digits acc (xs @ ys) =
     (case parse_digits acc xs of None \<Rightarrow> None | Some a \<Rightarrow> parse_digits a ys)"
  by (induction xs arbitrary: acc) (auto split: option.splits)

lemma parse_digits_show_nat:
  "parse_digits acc (show_nat n) = Some (acc * 10 ^ length (show_nat n) + n)"
proof (induction n arbitrary: acc rule: show_nat.induct)
  case (1 n)
  show ?case
  proof (cases "n < 10")
    case True
    then show ?thesis by (subst (1 2) show_nat.simps) (simp add: digit_of_digit_char)
  next
    case False
    have d: "digit_of (digit_char (n mod 10)) = Some (n mod 10)"
      by (simp add: digit_of_digit_char)
    from False 1 [of acc] show ?thesis
      by (subst (1 2) show_nat.simps) (simp add: parse_digits_append d algebra_simps)
  qed
qed

lemma show_nat_nonempty: "show_nat n \<noteq> []"
  by (subst show_nat.simps) simp

lemma show_nat_chars: "set (show_nat n) \<subseteq> range digit_char"
proof (induction n rule: show_nat.induct)
  case (1 n)
  show ?case
  proof (cases "n < 10")
    case True
    then show ?thesis by (subst show_nat.simps) simp
  next
    case False
    with 1 show ?thesis by (subst show_nat.simps) simp
  qed
qed

lemma show_nat_no_special:
  "CHR 0x0A \<notin> set (show_nat n)" "CHR ''-'' \<notin> set (show_nat n)"
proof -
  have "c \<in> set (show_nat n) \<Longrightarrow> \<exists>d. c = digit_char d" for c
    using show_nat_chars [of n] by auto
  then show "CHR 0x0A \<notin> set (show_nat n)" "CHR ''-'' \<notin> set (show_nat n)"
    using digit_char_not_special by metis+
qed

lemma parse_nat_show_nat: "parse_nat (show_nat n) = Some n"
  by (simp add: parse_nat_def show_nat_nonempty parse_digits_show_nat)

lemma parse_int_show_int: "parse_int (show_int i) = Some i"
proof (cases "i < 0")
  case True
  then show ?thesis by (simp add: parse_int_def show_int_def parse_nat_show_nat)
next
  case False
  obtain c cs where s: "show_nat (nat i) = c # cs"
    using show_nat_nonempty [of "nat i"] by (cases "show_nat (nat i)") auto
  then have "c \<in> set (show_nat (nat i))" by simp
  then have "c \<noteq> CHR ''-''" using show_nat_no_special(2) [of "nat i"] by auto
  with False s parse_nat_show_nat [of "nat i"] show ?thesis
    by (simp add: parse_int_def show_int_def)
qed

lemma show_int_no_newline: "CHR 0x0A \<notin> set (show_int i)"
  by (simp add: show_int_def show_nat_no_special)

lemma take_line_append:
  "CHR 0x0A \<notin> set l \<Longrightarrow> take_line (l @ CHR 0x0A # r) = Some (l, r)"
  by (induction l) auto

lemma strip_prefix_append: "strip_prefix p (p @ s) = Some s"
  by (induction p) auto

lemma parse_field_line:
  "CHR 0x0A \<notin> set v \<Longrightarrow> CHR 0x0A \<notin> set name \<Longrightarrow>
   parse_field name (name @ v @ CHR 0x0A # r) = Some (v, r)"
  using take_line_append [of "name @ v" r]
  by (simp add: parse_field_def strip_prefix_append)

text \<open>
  Claim C2, as amended. An event whose type and data are not empty, whose id, when there
  is one, is not empty, whose retry hint, when there is one, is not zero and is a safe
  integer (below \<open>2\<^sup>5\<^sup>3\<close> in magnitude, so that the code prints its exact decimal
  digits), and whose type, data and id hold no line feed, is read back from its formatted
  text unchanged: type, data, id and retry are those of the event.
\<close>

theorem format_parse_roundtrip:
  assumes "event ev \<noteq> []" "data ev \<noteq> []" "id_ev ev \<noteq> Some []" "retry ev \<noteq> Some 0"
    and "CHR 0x0A \<notin> set (event ev)" "CHR 0x0A \<notin> set (data ev)"
    and "\<forall>i. id_ev ev = Some i \<longrightarrow> CHR 0x0A \<notin> set i"
    and "\<forall>r. retry ev = Some r \<longrightarrow> \<bar>r\<bar> < 2 ^ 53"
  shows "parse_wire (formatSSEEvent ev) = Some ev"
proof -
  have ev: "parse_field ''event: '' (''event: '' @ event ev @ CHR 0x0A # r) = Some (event ev, r)"
    for r using assms by (intro parse_field_line) auto
  have da: "parse_field ''data: '' (''data: '' @ data ev @ CHR 0x0A # r) = Some (data ev, r)"
    for r using assms by (intro parse_field_line) auto
  have noid: "parse_field ''id: '' (''event: '' @ r) = None" for r
    by (simp add: parse_field_def split: option.splits)
  have nore: "parse_field ''retry: '' [CHR 0x0A] = None"
    by (simp add: parse_field_def)
  have re: "parse_field ''retry: '' (''retry: '' @ show_int x @ CHR 0x0A # r) = Some (show_int x, r)"
    for x r using show_int_no_newline by (intro parse_field_line) auto
  have idl: "CHR 0x0A \<notin> set i \<Longrightarrow>
      parse_field ''id: '' (''id: '' @ i @ CHR 0x0A # r) = Some (i, r)" for i r
    by (intro parse_field_line) auto
  show ?thesis
  proof (cases "id_ev ev")
    case None
    show ?thesis
    proof (cases "retry ev")
      case None
      with \<open>id_ev ev = None\<close> assms show ?thesis
        using ev [simplified] da [simplified] noid [simplified] nore
        by (simp add: formatSSEEvent_def parse_wire_def)
    next
      case (Some r)
      with \<open>id_ev ev = None\<close> assms show ?thesis
        using ev [simplified] da [simplified] noid [simplified] re [simplified]
          parse_int_show_int
        by (simp add: formatSSEEvent_def parse_wire_def)
    qed
  next
    case (Some i)
    with assms have i: "i \<noteq> []" "CHR 0x0A \<notin> set i" by auto
    show ?thesis
    proof (cases "retry ev")
      case None
      with \<open>id_ev ev = Some i\<close> assms i show ?thesis
        using ev [simplified] da [simplified] idl [simplified] nore
        by (simp add: formatSSEEvent_def parse_wire_def)
    next
      case (Some r)
      with \<open>id_ev ev = Some i\<close> assms i show ?thesis
        using ev [simplified] da [simplified] idl [simplified] re [simplified]
          parse_int_show_int
        by (simp add: formatSSEEvent_def parse_wire_def)
    qed
  qed
qed

text \<open>
  The amended claim at an event with all four fields: id \<open>7\<close>, type \<open>notification\<close>, data
  \<open>{}\<close>, retry \<open>3000\<close>.
\<close>

theorem format_parse_roundtrip_witness:
  "parse_wire (formatSSEEvent
     \<lparr>event = ''notification'', data = ''{}'', id_ev = Some ''7'', retry = Some 3000\<rparr>) =
   Some \<lparr>event = ''notification'', data = ''{}'', id_ev = Some ''7'', retry = Some 3000\<rparr>"
  using format_parse_roundtrip
    [of "\<lparr>event = ''notification'', data = ''{}'', id_ev = Some ''7'', retry = Some 3000\<rparr>"]
  by simp

text \<open>
  Claim C2 as stated fails: a retry hint of \<open>0\<close> and an empty id are not written (the
  text is that of the event without them), with empty data or an empty type no data or
  event line is written, and a line feed inside the data ends the data line early.
\<close>

theorem format_parse_roundtrip_counterexample:
  "parse_wire (formatSSEEvent \<lparr>event = ''x'', data = ''d'', id_ev = None, retry = Some 0\<rparr>)
     = Some \<lparr>event = ''x'', data = ''d'', id_ev = None, retry = None\<rparr> \<and>
   parse_wire (formatSSEEvent \<lparr>event = ''x'', data = ''d'', id_ev = Some [], retry = None\<rparr>)
     = Some \<lparr>event = ''x'', data = ''d'', id_ev = None, retry = None\<rparr> \<and>
   parse_wire (formatSSEEvent \<lparr>event = ''x'', data = [], id_ev = None, retry = None\<rparr>) = None \<and>
   parse_wire (formatSSEEvent \<lparr>event = [], data = ''d'', id_ev = None, retry = None\<rparr>) = None \<and>
   parse_wire (formatSSEEvent
      \<lparr>event = ''x'', data = [CHR ''a'', CHR 0x0A, CHR ''b''], id_ev = None, retry = None\<rparr>) = None"
  by (simp add: formatSSEEvent_def parse_wire_def parse_field_def)

section \<open>The index operations\<close>

lemma members_index_remove:
  "members (index_remove idx key i) k =
     (if key = Some k \<and> k \<noteq> [] then removeAll i (members idx k) else members idx k)"
  by (auto simp: members_def index_remove_def Let_def AList.update_conv' AList.delete_conv'
      split: option.splits)

lemma index_sets_ok_remove:
  assumes "index_sets_ok idx"
  shows "index_sets_ok (index_remove idx key i)"
proof -
  have "index_sets_ok (AList.delete k idx)" for k
    using assms
    by (auto simp: index_sets_ok_def AList.distinct_delete AList.delete_conv'
        split: if_splits)
  moreover have "s \<noteq> [] \<Longrightarrow> distinct s \<Longrightarrow> index_sets_ok (AList.update k s idx)" for k s
    using assms
    by (auto simp: index_sets_ok_def AList.distinct_update AList.update_conv'
        split: if_splits)
  moreover have "map_of idx k = Some s \<Longrightarrow> distinct (removeAll i s)" for k s
    using assms by (auto simp: index_sets_ok_def distinct_removeAll)
  ultimately show ?thesis
    using assms by (auto simp: index_remove_def Let_def split: option.splits)
qed

lemma set_set_add: "set (set_add s x) = insert x (set s)"
  by (auto simp: set_add_def)

lemma distinct_set_add: "distinct s \<Longrightarrow> distinct (set_add s x)"
  by (simp add: set_add_def)

lemma set_add_nonempty: "set_add s x \<noteq> []"
  by (simp add: set_add_def) auto

lemma members_index_add:
  "members (index_add idx k i) k' =
     (if k' = k then set_add (members idx k) i else members idx k')"
  by (auto simp: members_def index_add_def Let_def AList.update_conv' split: option.splits)

lemma index_sets_ok_add:
  assumes "index_sets_ok idx"
  shows "index_sets_ok (index_add idx k i)"
proof -
  have upd: "s \<noteq> [] \<Longrightarrow> distinct s \<Longrightarrow> distinct (map fst al) \<Longrightarrow>
      (\<forall>k s. map_of al k = Some s \<longrightarrow> s \<noteq> [] \<and> distinct s \<or> k = k') \<Longrightarrow>
      index_sets_ok (AList.update k' s al)" for k' s al
    by (auto simp: index_sets_ok_def AList.distinct_update AList.update_conv'
        split: if_splits)
  show ?thesis
  proof (cases "map_of idx k")
    case None
    have "index_sets_ok (AList.update k (set_add [] i) (AList.update k [] idx))"
      using assms
      by (intro upd) (auto simp: index_sets_ok_def AList.distinct_update AList.update_conv'
          set_add_def split: if_splits)
    with None show ?thesis
      by (simp add: index_add_def AList.update_conv')
  next
    case (Some s)
    then have "index_sets_ok (AList.update k (set_add s i) idx)"
      using assms
      by (intro upd) (auto simp: index_sets_ok_def set_add_nonempty distinct_set_add)
    with Some show ?thesis
      by (simp add: index_add_def)
  qed
qed

lemma index_consistent_remove:
  assumes "index_consistent m key idx" "m i = Some c"
  shows "index_consistent (m(i := None)) key (index_remove idx (key c) i)"
  using assms unfolding index_consistent_def members_index_remove
  by (auto split: if_splits)

lemma index_consistent_add:
  assumes "index_consistent (m(i := None)) key idx" "m i = Some c" "key c = Some k" "k \<noteq> []"
  shows "index_consistent m key (index_add idx k i)"
  unfolding index_consistent_def
proof (intro allI)
  fix k' j
  from assms(1) have *: "j \<in> set (members idx k') \<longleftrightarrow>
      (\<exists>c. (m(i := None)) j = Some c \<and> key c = Some k' \<and> k' \<noteq> [])"
    by (simp add: index_consistent_def)
  show "j \<in> set (members (index_add idx k i) k') \<longleftrightarrow>
      (\<exists>c. m j = Some c \<and> key c = Some k' \<and> k' \<noteq> [])"
    using * assms(2-4) by (cases "j = i") (auto simp: members_index_add set_set_add)
qed

lemma index_consistent_skip:
  assumes "index_consistent (m(i := None)) key idx" "m i = Some c"
    "key c = None \<or> key c = Some []"
  shows "index_consistent m key idx"
  unfolding index_consistent_def
proof (intro allI)
  fix k' j
  from assms(1) have *: "j \<in> set (members idx k') \<longleftrightarrow>
      (\<exists>c. (m(i := None)) j = Some c \<and> key c = Some k' \<and> k' \<noteq> [])"
    by (simp add: index_consistent_def)
  show "j \<in> set (members idx k') \<longleftrightarrow> (\<exists>c. m j = Some c \<and> key c = Some k' \<and> k' \<noteq> [])"
    using * assms(2,3) by (cases "j = i") auto
qed

lemma index_consistent_update:
  assumes "index_consistent m key idx" "m i = Some c" "key c' = key c"
  shows "index_consistent (m(i \<mapsto> c')) key idx"
  unfolding index_consistent_def
proof (intro allI)
  fix k' j
  from assms(1) have *: "j \<in> set (members idx k') \<longleftrightarrow>
      (\<exists>c. m j = Some c \<and> key c = Some k' \<and> k' \<noteq> [])"
    by (simp add: index_consistent_def)
  show "j \<in> set (members idx k') \<longleftrightarrow>
      (\<exists>c. (m(i \<mapsto> c')) j = Some c \<and> key c = Some k' \<and> k' \<noteq> [])"
    using * assms(2,3) by (cases "j = i") auto
qed

lemma index_consistent_absent:
  assumes "index_consistent m key idx" "m i = None"
  shows "i \<notin> set (members idx k)"
  using assms by (auto simp: index_consistent_def)

lemma index_ok_remove:
  assumes "index_ok key cl idx" "map_of cl i = Some c"
  shows "index_ok key (AList.delete i cl) (index_remove idx (key c) i)"
  using assms
  by (simp add: index_ok_def AList.distinct_delete AList.delete_conv' index_sets_ok_remove
      index_consistent_remove)

lemma index_ok_except_remove:
  assumes "index_ok_except n key cl idx" "map_of cl i = Some c" "i \<noteq> n"
  shows "index_ok_except n key (AList.delete i cl) (index_remove idx (key c) i)"
proof -
  have "index_consistent (((map_of cl)(n := None))(i := None)) key (index_remove idx (key c) i)"
    using assms by (intro index_consistent_remove) (auto simp: index_ok_except_def)
  moreover have "((map_of cl)(n := None))(i := None) = ((map_of cl)(i := None))(n := None)"
    by (auto simp: fun_eq_iff)
  ultimately show ?thesis
    using assms
    by (simp add: index_ok_except_def AList.distinct_delete AList.delete_conv'
        index_sets_ok_remove)
qed

lemma index_ok_update:
  assumes "index_ok key cl idx" "map_of cl i = Some c" "key c' = key c"
  shows "index_ok key (AList.update i c' cl) idx"
  using assms
  by (simp add: index_ok_def AList.distinct_update AList.update_conv' index_consistent_update)

lemma index_ok_except_register:
  assumes "index_ok key cl idx" "map_of cl n = None"
  shows "index_ok_except n key (AList.update n c cl) idx"
proof -
  have "(map_of (AList.update n c cl))(n := None) = map_of cl"
    using assms(2) by (auto simp: AList.update_conv')
  with assms(1) show ?thesis
    by (simp add: index_ok_def index_ok_except_def AList.distinct_update)
qed

lemma index_ok_add:
  assumes "index_ok_except n key cl idx" "map_of cl n = Some c" "key c = Some k" "k \<noteq> []"
  shows "index_ok key cl (index_add idx k n)"
  using assms
  by (simp add: index_ok_def index_ok_except_def index_sets_ok_add index_consistent_add)

lemma index_ok_skip:
  assumes "index_ok_except n key cl idx" "map_of cl n = Some c" "key c = None \<or> key c = Some []"
  shows "index_ok key cl idx"
  using assms index_consistent_skip [of "map_of cl" n key idx c]
  by (simp add: index_ok_def index_ok_except_def)

lemma index_ok_absent:
  assumes "index_ok key cl idx" "map_of cl i = None"
  shows "i \<notin> set (members idx k)"
  using assms index_consistent_absent by (auto simp: index_ok_def)

section \<open>What the operations do to the fields\<close>

lemma clients_removeClient: "clients (removeClient st i) = AList.delete i (clients st)"
  by (auto simp: removeClient_def map_of_eq_None_iff split: option.splits)

lemma map_of_clients_removeClient:
  "map_of (clients (removeClient st i)) = (map_of (clients st))(i := None)"
  by (simp add: clients_removeClient AList.delete_conv')

lemma config_removeClient: "config (removeClient st i) = config st"
  by (simp add: removeClient_def split: option.splits)

lemma controllers_removeClient: "controllers (removeClient st i) = controllers st"
  by (simp add: removeClient_def split: option.splits)

lemma userClients_removeClient:
  "userClients (removeClient st i) =
     (case map_of (clients st) i of
        None \<Rightarrow> userClients st
      | Some c \<Rightarrow> index_remove (userClients st) (userId c) i)"
  by (simp add: removeClient_def split: option.splits)

lemma sessionClients_removeClient:
  "sessionClients (removeClient st i) =
     (case map_of (clients st) i of
        None \<Rightarrow> sessionClients st
      | Some c \<Rightarrow> index_remove (sessionClients st) (sessionId c) i)"
  by (simp add: removeClient_def split: option.splits)

lemma removeClient_unknown: "map_of (clients st) i = None \<Longrightarrow> removeClient st i = st"
  by (simp add: removeClient_def)

lemma user_index_ok_removeClient:
  assumes "user_index_ok st"
  shows "user_index_ok (removeClient st i)"
proof (cases "map_of (clients st) i")
  case None
  with assms show ?thesis by (simp add: removeClient_unknown)
next
  case (Some c)
  with assms show ?thesis
    by (simp add: user_index_ok_def clients_removeClient userClients_removeClient
        index_ok_remove)
qed

lemma session_index_ok_removeClient:
  assumes "session_index_ok st"
  shows "session_index_ok (removeClient st i)"
proof (cases "map_of (clients st) i")
  case None
  with assms show ?thesis by (simp add: removeClient_unknown)
next
  case (Some c)
  with assms show ?thesis
    by (simp add: session_index_ok_def clients_removeClient sessionClients_removeClient
        index_ok_remove)
qed

text \<open>The three outcomes of \<open>sendToClient\<close>.\<close>

lemma sendToClient_cases:
  obtains (unknown) "map_of (clients st) i = None" "sendToClient st now i ev = (False, st)"
  | (disconnected) c where "map_of (clients st) i = Some c" "\<not> isConnected c"
      "sendToClient st now i ev = (False, st)"
  | (failed) c where "map_of (clients st) i = Some c" "isConnected c"
      "closed (controllers st (controller c))"
      "sendToClient st now i ev = (False, removeClient st i)"
  | (sent) c where "map_of (clients st) i = Some c" "isConnected c"
      "\<not> closed (controllers st (controller c))"
      "sendToClient st now i ev =
         (True, st\<lparr>controllers := (controllers st)
                      (controller c := (controllers st (controller c))
                         \<lparr>queue := queue (controllers st (controller c)) @ [formatSSEEvent ev]\<rparr>),
                    clients := AList.update i (c\<lparr>lastPing := now\<rparr>) (clients st)\<rparr>)"
proof (cases "map_of (clients st) i")
  case None
  then show ?thesis using unknown by (simp add: sendToClient_def)
next
  case (Some c)
  show ?thesis
  proof (cases "isConnected c")
    case False
    with Some show ?thesis using disconnected by (simp add: sendToClient_def)
  next
    case True
    show ?thesis
    proof (cases "closed (controllers st (controller c))")
      case True
      with Some \<open>isConnected c\<close> show ?thesis
        using failed by (simp add: sendToClient_def enqueue_def)
    next
      case False
      with Some \<open>isConnected c\<close> show ?thesis
        using sent by (simp add: sendToClient_def enqueue_def)
    qed
  qed
qed

lemma config_sendToClient: "config (snd (sendToClient st now i ev)) = config st"
  by (cases rule: sendToClient_cases [of st i now ev]) (simp_all add: config_removeClient)

lemma user_index_ok_sendToClient:
  assumes "user_index_ok st"
  shows "user_index_ok (snd (sendToClient st now i ev))"
proof (cases rule: sendToClient_cases [of st i now ev])
  case (sent c)
  with assms show ?thesis
    by (simp add: user_index_ok_def index_ok_update)
qed (use assms in \<open>simp_all add: user_index_ok_removeClient\<close>)

lemma session_index_ok_sendToClient:
  assumes "session_index_ok st"
  shows "session_index_ok (snd (sendToClient st now i ev))"
proof (cases rule: sendToClient_cases [of st i now ev])
  case (sent c)
  with assms show ?thesis
    by (simp add: session_index_ok_def index_ok_update)
qed (use assms in \<open>simp_all add: session_index_ok_removeClient\<close>)

section \<open>Properties kept by every operation\<close>

lemma send_loop_preserves:
  assumes "\<And>st i. P st \<Longrightarrow> P (snd (sendToClient st now i ev))" "P st"
  shows "P (fst (send_loop st now ev ids failed))"
  using assms(2)
proof (induction ids arbitrary: st failed)
  case Nil
  then show ?case by simp
next
  case (Cons i ids)
  obtain ok st' where s: "sendToClient st now i ev = (ok, st')"
    by (cases "sendToClient st now i ev")
  with assms(1) [OF Cons.prems, of i] have "P st'" by simp
  from Cons.IH [OF this] s show ?case by simp
qed

lemma foldl_removeClient_preserves:
  assumes "\<And>st i. P st \<Longrightarrow> P (removeClient st i)" "P st"
  shows "P (foldl removeClient st ids)"
  using assms(2) by (induction ids arbitrary: st) (auto intro: assms(1))

lemma group_send_preserves:
  assumes "\<And>st i. P st \<Longrightarrow> P (removeClient st i)"
    and "\<And>st i. P st \<Longrightarrow> P (snd (sendToClient st now i ev))"
    and "P st"
  shows "P (case send_loop st now ev ids [] of (st', failed) \<Rightarrow> foldl removeClient st' failed)"
proof -
  obtain st' failed where s: "send_loop st now ev ids [] = (st', failed)"
    by (cases "send_loop st now ev ids []")
  have "P st'"
    using send_loop_preserves [of P now ev st ids "[]"] assms(2,3) s by simp
  then show ?thesis
    using s foldl_removeClient_preserves [of P st' failed] assms(1) by simp
qed

lemma perform_preserves:
  assumes rem: "\<And>st i. P st \<Longrightarrow> P (removeClient st i)"
    and send: "\<And>st now i ev. P st \<Longrightarrow> P (snd (sendToClient st now i ev))"
    and add: "\<And>st c. P st \<Longrightarrow> Q c \<Longrightarrow> P (addClient st c)"
    and des: "\<And>st. P st \<Longrightarrow> P (destroy st)"
    and "P st" and "\<And>c. op = AddClient c \<Longrightarrow> Q c"
  shows "P (perform st (now, op))"
proof (cases op)
  case (SendToUser u ev)
  then show ?thesis
    using group_send_preserves [of P now ev st] rem send \<open>P st\<close>
    by (simp add: sendToUser_def split: option.splits)
next
  case (SendToSession s ev)
  then show ?thesis
    using group_send_preserves [of P now ev st] rem send \<open>P st\<close>
    by (simp add: sendToSession_def split: option.splits)
next
  case (Broadcast ev ex)
  then show ?thesis
    using group_send_preserves [of P now ev st] rem send \<open>P st\<close>
    by (simp add: broadcast_def)
next
  case Cleanup
  then show ?thesis
    using foldl_removeClient_preserves [of P st] rem \<open>P st\<close>
    by (simp add: cleanup_def)
qed (use assms in \<open>simp_all add: pingClient_def\<close>)

lemma run_preserves:
  assumes "\<And>st now op. P st \<Longrightarrow> op \<in> snd ` set ops \<Longrightarrow> P (perform st (now, op))" "P st"
  shows "P (run st ops)"
  using assms unfolding run_def
proof (induction ops arbitrary: st)
  case Nil
  then show ?case by simp
next
  case (Cons x ops)
  obtain now op where x: "x = (now, op)" by (cases x)
  have "P (perform st x)" using Cons.prems x by auto
  then show ?case using Cons.IH [of "perform st x"] Cons.prems(1) by auto
qed

section \<open>The phases of \<open>addClient\<close>\<close>

lemma addClient_phases:
  "addClient st c =
     (case sessionId c of
        None \<Rightarrow> after_user st c
      | Some s \<Rightarrow>
          if s = [] then after_user st c
          else (after_user st c)
                 \<lparr>sessionClients := index_add (sessionClients (after_user st c)) s (id_cl c)\<rparr>)"
  by (simp add: addClient_def after_user_def after_register_def enforce_ceiling_def Let_def
      split: option.splits list.splits)

lemma clients_addClient: "clients (addClient st c) = clients (after_user st c)"
  by (simp add: addClient_phases split: option.splits)

lemma userClients_addClient: "userClients (addClient st c) = userClients (after_user st c)"
  by (simp add: addClient_phases split: option.splits)

lemma config_addClient: "config (addClient st c) = config (after_user st c)"
  by (simp add: addClient_phases split: option.splits)

lemma after_register_fields:
  "clients (after_register st c) = AList.update (id_cl c) c (AList.delete (id_cl c) (clients st))"
  "userClients (after_register st c) = userClients (removeClient st (id_cl c))"
  "sessionClients (after_register st c) = sessionClients (removeClient st (id_cl c))"
  "config (after_register st c) = config st"
  "controllers (after_register st c) = controllers st"
  by (simp_all add: after_register_def clients_removeClient config_removeClient
      controllers_removeClient)

lemma map_of_after_register:
  "map_of (clients (after_register st c)) = (map_of (clients st))(id_cl c \<mapsto> c)"
  by (simp add: after_register_fields AList.update_conv' AList.delete_conv')

lemma after_register_user_except:
  assumes "user_index_ok st"
  shows "index_ok_except (id_cl c) userId (clients (after_register st c))
           (userClients (after_register st c))"
proof -
  have "user_index_ok (removeClient st (id_cl c))"
    using assms by (rule user_index_ok_removeClient)
  then show ?thesis
    using index_ok_except_register [of userId "clients (removeClient st (id_cl c))"
        "userClients (removeClient st (id_cl c))" "id_cl c" c]
    by (simp add: user_index_ok_def after_register_def map_of_clients_removeClient)
qed

lemma after_register_session_except:
  assumes "session_index_ok st"
  shows "index_ok_except (id_cl c) sessionId (clients (after_register st c))
           (sessionClients (after_register st c))"
proof -
  have "session_index_ok (removeClient st (id_cl c))"
    using assms by (rule session_index_ok_removeClient)
  then show ?thesis
    using index_ok_except_register [of sessionId "clients (removeClient st (id_cl c))"
        "sessionClients (removeClient st (id_cl c))" "id_cl c" c]
    by (simp add: session_index_ok_def after_register_def map_of_clients_removeClient)
qed

text \<open>The eviction either leaves the state or removes the first id of the user's set.\<close>

lemma enforce_ceiling_cases:
  obtains (keep) "enforce_ceiling st u = st"
      "members (userClients st) u = [] \<or>
       int (length (members (userClients st) u)) \<le> maxClientsPerUser (config st) \<or>
       (\<exists>rest. members (userClients st) u = [] # rest)"
  | (evict) oldest rest where "members (userClients st) u = oldest # rest" "oldest \<noteq> []"
      "int (length (oldest # rest)) > maxClientsPerUser (config st)"
      "enforce_ceiling st u = removeClient st oldest"
proof (cases "map_of (userClients st) u")
  case None
  then show ?thesis
    using keep by (simp add: enforce_ceiling_def members_def)
next
  case (Some s)
  show ?thesis
  proof (cases "int (length s) > maxClientsPerUser (config st)")
    case False
    with Some show ?thesis
      using keep by (simp add: enforce_ceiling_def members_def)
  next
    case True
    show ?thesis
    proof (cases s)
      case Nil
      with Some True show ?thesis
        using keep by (simp add: enforce_ceiling_def members_def)
    next
      case (Cons oldest rest)
      show ?thesis
      proof (cases "oldest = []")
        case True
        with Some Cons \<open>int (length s) > maxClientsPerUser (config st)\<close> show ?thesis
          using keep by (simp add: enforce_ceiling_def members_def)
      next
        case False
        with Some Cons \<open>int (length s) > maxClientsPerUser (config st)\<close> show ?thesis
          using evict [of oldest rest] by (simp add: enforce_ceiling_def members_def)
      qed
    qed
  qed
qed

lemma user_index_ok_enforce_ceiling:
  "user_index_ok st \<Longrightarrow> user_index_ok (enforce_ceiling st u)"
  by (cases rule: enforce_ceiling_cases [of st u]) (simp_all add: user_index_ok_removeClient)

lemma user_index_ok_after_user:
  assumes "user_index_ok st"
  shows "user_index_ok (after_user st c)"
proof -
  note ex = after_register_user_except [OF assms, of c]
  have here: "map_of (clients (after_register st c)) (id_cl c) = Some c"
    by (simp add: map_of_after_register)
  show ?thesis
  proof (cases "userId c = None \<or> userId c = Some []")
    case True
    then have "after_user st c = after_register st c"
      by (auto simp: after_user_def)
    with index_ok_skip [OF ex here True] show ?thesis
      by (simp add: user_index_ok_def)
  next
    case False
    then obtain u where u: "userId c = Some u" "u \<noteq> []" by auto
    have "user_index_ok ((after_register st c)
        \<lparr>userClients := index_add (userClients (after_register st c)) u (id_cl c)\<rparr>)"
      using index_ok_add [OF ex here u] by (simp add: user_index_ok_def)
    then show ?thesis
      using u by (simp add: after_user_def user_index_ok_enforce_ceiling)
  qed
qed

lemma user_index_ok_addClient:
  assumes "user_index_ok st"
  shows "user_index_ok (addClient st c)"
  using user_index_ok_after_user [OF assms, of c]
  by (simp add: user_index_ok_def clients_addClient userClients_addClient)

lemma user_index_ok_destroy: "user_index_ok (destroy st)"
  by (simp add: user_index_ok_def index_ok_def index_sets_ok_def index_consistent_def
      members_def destroy_def)

lemma session_index_ok_destroy: "session_index_ok (destroy st)"
  by (simp add: session_index_ok_def index_ok_def index_sets_ok_def index_consistent_def
      members_def destroy_def)

lemma user_index_ok_new: "user_index_ok (newSSEManager cfg ctls)"
  by (simp add: user_index_ok_def index_ok_def index_sets_ok_def index_consistent_def
      members_def newSSEManager_def)

lemma session_index_ok_new: "session_index_ok (newSSEManager cfg ctls)"
  by (simp add: session_index_ok_def index_ok_def index_sets_ok_def index_consistent_def
      members_def newSSEManager_def)

lemma user_index_ok_perform:
  assumes "user_index_ok st"
  shows "user_index_ok (perform st (now, op))"
  using assms
  by (intro perform_preserves [where P = user_index_ok and Q = "\<lambda>c. True"])
    (simp_all add: user_index_ok_removeClient user_index_ok_sendToClient
      user_index_ok_addClient user_index_ok_destroy)

lemma user_index_ok_run:
  assumes "user_index_ok st"
  shows "user_index_ok (run st ops)"
  using assms by (intro run_preserves [where P = user_index_ok]) (simp_all add: user_index_ok_perform)

section \<open>The session index through \<open>addClient\<close>\<close>

lemma removeClient_session_except:
  assumes "index_ok_except n sessionId (clients st) (sessionClients st)" "i \<noteq> n"
  shows "index_ok_except n sessionId (clients (removeClient st i))
           (sessionClients (removeClient st i))"
proof (cases "map_of (clients st) i")
  case None
  with assms show ?thesis by (simp add: removeClient_unknown)
next
  case (Some c)
  with assms show ?thesis
    by (simp add: clients_removeClient sessionClients_removeClient index_ok_except_remove)
qed

text \<open>
  After the user's set has received the new id, its first element is an older id, unless
  the set was empty before.
\<close>

lemma members_after_index_add:
  assumes "user_index_ok st"
  shows "members (index_add (userClients (after_register st c)) u (id_cl c)) u =
           members (userClients (removeClient st (id_cl c))) u @ [id_cl c] \<and>
         id_cl c \<notin> set (members (userClients (removeClient st (id_cl c))) u)"
proof -
  have "user_index_ok (removeClient st (id_cl c))"
    using assms by (rule user_index_ok_removeClient)
  then have "id_cl c \<notin> set (members (userClients (removeClient st (id_cl c))) u)"
    using index_ok_absent [of userId "clients (removeClient st (id_cl c))"
        "userClients (removeClient st (id_cl c))" "id_cl c" u]
    by (simp add: user_index_ok_def map_of_clients_removeClient)
  then show ?thesis
    by (simp add: members_index_add after_register_fields set_add_def)
qed

lemma session_except_after_user:
  assumes "user_index_ok st" "session_index_ok st" "1 \<le> maxClientsPerUser (config st)"
  shows "index_ok_except (id_cl c) sessionId (clients (after_user st c))
           (sessionClients (after_user st c)) \<and>
         map_of (clients (after_user st c)) (id_cl c) = Some c"
proof -
  note ex = after_register_session_except [OF assms(2), of c]
  have here: "map_of (clients (after_register st c)) (id_cl c) = Some c"
    by (simp add: map_of_after_register)
  show ?thesis
  proof (cases "userId c = None \<or> userId c = Some []")
    case True
    then have "after_user st c = after_register st c"
      by (auto simp: after_user_def)
    with ex here show ?thesis by simp
  next
    case False
    then obtain u where u: "userId c = Some u" "u \<noteq> []" by auto
    define st' where "st' = (after_register st c)
        \<lparr>userClients := index_add (userClients (after_register st c)) u (id_cl c)\<rparr>"
    have au: "after_user st c = enforce_ceiling st' u"
      using u by (simp add: after_user_def st'_def)
    have ex': "index_ok_except (id_cl c) sessionId (clients st') (sessionClients st')"
      using ex by (simp add: st'_def)
    have here': "map_of (clients st') (id_cl c) = Some c"
      using here by (simp add: st'_def)
    have mem: "members (userClients st') u =
        members (userClients (removeClient st (id_cl c))) u @ [id_cl c]"
      and fresh: "id_cl c \<notin> set (members (userClients (removeClient st (id_cl c))) u)"
      using members_after_index_add [OF assms(1), of c u] by (simp_all add: st'_def)
    show ?thesis
    proof (cases rule: enforce_ceiling_cases [of st' u])
      case keep
      with au ex' here' show ?thesis by simp
    next
      case (evict oldest rest)
      have cfg: "config st' = config st"
        by (simp add: st'_def after_register_fields)
      have "oldest \<noteq> id_cl c"
      proof (cases "members (userClients (removeClient st (id_cl c))) u")
        case Nil
        with mem evict(1,3) assms(3) cfg show ?thesis by simp
      next
        case (Cons x xs)
        with mem evict(1) have "oldest = x" by simp
        with Cons fresh show ?thesis by auto
      qed
      then show ?thesis
        using au evict(4) removeClient_session_except [OF ex', of oldest] here'
        by (simp add: map_of_clients_removeClient)
    qed
  qed
qed

lemma session_index_ok_addClient:
  assumes "user_index_ok st" "session_index_ok st" "1 \<le> maxClientsPerUser (config st)"
  shows "session_index_ok (addClient st c)"
proof -
  from session_except_after_user [OF assms, of c]
  have ex: "index_ok_except (id_cl c) sessionId (clients (after_user st c))
      (sessionClients (after_user st c))"
    and here: "map_of (clients (after_user st c)) (id_cl c) = Some c" by simp_all
  show ?thesis
  proof (cases "sessionId c = None \<or> sessionId c = Some []")
    case True
    then have "addClient st c = after_user st c"
      by (auto simp: addClient_phases)
    with index_ok_skip [OF ex here True] show ?thesis
      by (simp add: session_index_ok_def)
  next
    case False
    then obtain s where s: "sessionId c = Some s" "s \<noteq> []" by auto
    with index_ok_add [OF ex here s] show ?thesis
      by (simp add: session_index_ok_def addClient_phases)
  qed
qed

lemma config_enforce_ceiling: "config (enforce_ceiling st u) = config st"
  by (cases rule: enforce_ceiling_cases [of st u]) (simp_all add: config_removeClient)

lemma config_addClient_eq: "config (addClient st c) = config st"
  by (simp add: config_addClient after_user_def config_enforce_ceiling after_register_fields
      split: option.splits)

lemma config_destroy: "config (destroy st) = config st"
  by (simp add: destroy_def)

lemma config_perform: "config (perform st (now, op)) = config st"
  by (rule perform_preserves [where P = "\<lambda>s. config s = config st" and Q = "\<lambda>c. True"])
    (simp_all add: config_removeClient config_sendToClient config_addClient_eq config_destroy)

text \<open>
  With a ceiling of at least one, the two indexes stay consistent with the primary map
  under every operation.
\<close>

lemma registry_ok_perform:
  assumes "registry_ok st" "1 \<le> maxClientsPerUser (config st)"
  shows "registry_ok (perform st (now, op))"
proof -
  have "registry_ok (perform st (now, op)) \<and>
      1 \<le> maxClientsPerUser (config (perform st (now, op)))"
    using assms
    by (intro perform_preserves
          [where P = "\<lambda>s. registry_ok s \<and> 1 \<le> maxClientsPerUser (config s)"
             and Q = "\<lambda>c. True"])
      (simp_all add: registry_ok_def
        user_index_ok_removeClient session_index_ok_removeClient config_removeClient
        user_index_ok_sendToClient session_index_ok_sendToClient config_sendToClient
        user_index_ok_addClient session_index_ok_addClient config_addClient_eq
        user_index_ok_destroy session_index_ok_destroy config_destroy)
  then show ?thesis by simp
qed

lemma config_run: "config (run st ops) = config st"
  by (rule run_preserves [where P = "\<lambda>s. config s = config st"]) (simp_all add: config_perform)

lemma registry_ok_run:
  assumes "registry_ok st" "1 \<le> maxClientsPerUser (config st)"
  shows "registry_ok (run st ops)"
proof -
  have "registry_ok (run st ops) \<and> config (run st ops) = config st"
    using assms
    by (intro run_preserves [where P = "\<lambda>s. registry_ok s \<and> config s = config st"])
      (simp_all add: registry_ok_perform config_perform)
  then show ?thesis by simp
qed

lemma registry_ok_new: "registry_ok (newSSEManager cfg ctls)"
  by (simp add: registry_ok_def user_index_ok_new session_index_ok_new)

section \<open>The invariant of the data model\<close>

lemma index_entry_members:
  assumes "index_sets_ok idx" "e \<in> set idx"
  shows "members idx (fst e) = snd e" "snd e \<noteq> []"
proof -
  from assms have m: "map_of idx (fst e) = Some (snd e)"
    by (cases e) (simp add: index_sets_ok_def)
  then show "members idx (fst e) = snd e"
    by (simp add: members_def)
  from assms(1) have "\<And>k s. map_of idx k = Some s \<Longrightarrow> s \<noteq> []"
    unfolding index_sets_ok_def by blast
  from this [OF m] show "snd e \<noteq> []" .
qed

lemma index_ok_invariant:
  assumes "index_ok key cl idx"
  shows "index_invariant cl idx"
proof -
  from assms have sets: "index_sets_ok idx"
    and cons: "\<And>k i. i \<in> set (members idx k) \<longleftrightarrow>
        (\<exists>c. map_of cl i = Some c \<and> key c = Some k \<and> k \<noteq> [])"
    by (simp_all add: index_ok_def index_consistent_def)
  have one: "e = e'" if "e \<in> set idx" "e' \<in> set idx" "i \<in> set (snd e) \<and> i \<in> set (snd e')"
    for i e e'
  proof -
    have m: "members idx (fst e) = snd e" "members idx (fst e') = snd e'"
      using that(1,2) by (simp_all add: index_entry_members [OF sets])
    with that(3) have "i \<in> set (members idx (fst e))" "i \<in> set (members idx (fst e'))"
      by simp_all
    then have "\<exists>c. map_of cl i = Some c \<and> key c = Some (fst e)"
      "\<exists>c. map_of cl i = Some c \<and> key c = Some (fst e')"
      by (auto simp: cons)
    then obtain c c' where "map_of cl i = Some c" "key c = Some (fst e)"
      "map_of cl i = Some c'" "key c' = Some (fst e')" by blast
    then have "fst e = fst e'" by simp
    with m have "snd e = snd e'" by simp
    with \<open>fst e = fst e'\<close> show ?thesis by (rule prod_eqI)
  qed
  have known: "i \<in> fst ` set cl" if "e \<in> set idx" "i \<in> set (snd e)" for i e
  proof -
    from that have "i \<in> set (members idx (fst e))"
      by (simp add: index_entry_members [OF sets])
    then obtain c where "map_of cl i = Some c" by (auto simp: cons)
    then have "(i, c) \<in> set cl" by (rule map_of_SomeD)
    then show ?thesis by (rule image_eqI [rotated]) simp
  qed
  have nonempty: "snd e \<noteq> []" if "e \<in> set idx" for e
    using that by (rule index_entry_members(2) [OF sets])
  show ?thesis
    unfolding index_invariant_def
  proof (intro conjI ballI impI)
    fix i e e'
    assume "e \<in> set idx" "e' \<in> set idx" "i \<in> set (snd e) \<and> i \<in> set (snd e')"
    then show "e = e'" by (rule one)
  next
    fix e i
    assume "e \<in> set idx" "i \<in> set (snd e)"
    then show "i \<in> fst ` set cl" by (rule known)
  next
    fix e
    assume "e \<in> set idx"
    then show "snd e \<noteq> []" by (rule nonempty)
  qed
qed

lemma registry_ok_invariant:
  assumes "registry_ok st"
  shows "registry_invariant st"
proof -
  from assms have "index_ok userId (clients st) (userClients st)"
    "index_ok sessionId (clients st) (sessionClients st)"
    by (simp_all add: registry_ok_def user_index_ok_def session_index_ok_def)
  then show ?thesis
    by (simp add: registry_invariant_def index_ok_invariant [of userId]
        index_ok_invariant [of sessionId])
qed

lemma index_ok_absent_entries:
  assumes "index_ok key cl idx" "map_of cl i = None"
  shows "list_all (\<lambda>e. i \<notin> set (snd e)) idx"
proof -
  have "i \<notin> set (snd e)" if "e \<in> set idx" for e
  proof -
    from assms(1) that have "members idx (fst e) = snd e"
      by (simp add: index_ok_def index_entry_members)
    with index_ok_absent [OF assms, of "fst e"] show ?thesis by simp
  qed
  then show ?thesis by (simp add: list_all_iff)
qed

lemma registry_ok_absent:
  assumes "registry_ok st" "map_of (clients st) i = None"
  shows "absent i st"
proof -
  from assms(1) have "index_ok userId (clients st) (userClients st)"
    "index_ok sessionId (clients st) (sessionClients st)"
    by (simp_all add: registry_ok_def user_index_ok_def session_index_ok_def)
  from index_ok_absent_entries [OF this(1) assms(2)]
    index_ok_absent_entries [OF this(2) assms(2)] assms(2)
  show ?thesis by (simp add: absent_def map_of_eq_None_iff)
qed

text \<open>
  What the code keeps of the invariant of the data model. When \<^verbatim>\<open>maxClientsPerUser\<close> is
  at least 1, it holds in the initial registry and in the state after any public
  operation, called with any arguments at any time in a state that any sequence of public
  operations has led to: an id of the primary map is in at most one user set and at most
  one session set, every id in a set is in the primary map, and no set is empty.
\<close>

theorem registry_invariant_preserved:
  assumes "1 \<le> maxClientsPerUser (resolveConfig cfg)"
  shows "registry_invariant (newSSEManager cfg ctls) \<and>
         registry_invariant (perform (run (newSSEManager cfg ctls) ops) (now, op))"
proof -
  have cfg: "1 \<le> maxClientsPerUser (config (newSSEManager cfg ctls))"
    using assms by (simp add: newSSEManager_def)
  have "registry_ok (run (newSSEManager cfg ctls) ops)"
    using registry_ok_new cfg by (rule registry_ok_run)
  then have "registry_ok (perform (run (newSSEManager cfg ctls) ops) (now, op))"
    using cfg by (intro registry_ok_perform) (simp_all add: config_run)
  then show ?thesis
    using registry_ok_new [of cfg ctls] by (simp add: registry_ok_invariant)
qed

text \<open>
  At the default ceiling of 5: a client is added to the new registry and an event is
  then sent to its user.
\<close>

theorem registry_invariant_preserved_witness:
  "1 \<le> maxClientsPerUser (resolveConfig plain_config) \<and>
   registry_invariant (newSSEManager plain_config open_controllers) \<and>
   registry_invariant
     (perform (run (newSSEManager plain_config open_controllers)
                 [(0, AddClient (new_client ''c1'' (Some ''user123'') (Some ''session456'') 0))])
        (1, SendToUser ''user123'' notification))"
  using registry_invariant_preserved [of plain_config open_controllers
      "[(0, AddClient (new_client ''c1'' (Some ''user123'') (Some ''session456'') 0))]"
      1 "SendToUser ''user123'' notification"]
  by (simp add: resolveConfig_def plain_config_def)

text \<open>
  Claim C6: the invariant of the data model (every id in a set of the user or session
  index is in the primary map, an id is in at most one set of each index, no set is empty)
  is to hold after every public operation. The code breaks it when \<^verbatim>\<open>maxClientsPerUser\<close>
  is 0: \<^verbatim>\<open>addClient\<close> on the new registry evicts the client it has just added, as the
  oldest of its user, which empties the primary map and the user index, and then still
  puts its id into the session index, where it stays.
\<close>

theorem addClient_zero_ceiling_dangling:
  "clients (addClient (newSSEManager (max_config 0) open_controllers) client1) = [] \<and>
   userClients (addClient (newSSEManager (max_config 0) open_controllers) client1) = [] \<and>
   sessionClients (addClient (newSSEManager (max_config 0) open_controllers) client1) =
     [(''session456'', [''c1''])]"
  by code_simp

text \<open>That state does not satisfy the invariant of the data model.\<close>

theorem registry_invariant_counterexample:
  "\<not> registry_invariant (addClient (newSSEManager (max_config 0) open_controllers) client1)"
  by code_simp

section \<open>\<^verbatim>\<open>sendToClient\<close>\<close>

text \<open>
  Claim C1, as amended. In a registry whose indexes are consistent with the primary map:
  for an unknown id the call returns false, changes nothing, and the id is in none of the
  three maps; for a client whose \<^verbatim>\<open>isConnected\<close> is false it returns false and changes
  nothing (the client stays registered); when the write to the sink fails it returns
  false and the id is afterwards in none of the three maps; otherwise it returns true,
  the formatted event is appended to the sink's queue, \<^verbatim>\<open>lastPing\<close> is the time of the
  call, and nothing else changes.
\<close>

theorem sendToClient_outcomes:
  assumes "registry_ok st"
  shows
    "(map_of (clients st) i = None \<longrightarrow>
        sendToClient st now i ev = (False, st) \<and> absent i st) \<and>
     (\<forall>c. map_of (clients st) i = Some c \<and> \<not> isConnected c \<longrightarrow>
        sendToClient st now i ev = (False, st)) \<and>
     (\<forall>c. map_of (clients st) i = Some c \<and> isConnected c \<and>
          enqueue (controllers st (controller c)) (formatSSEEvent ev) = None \<longrightarrow>
        \<not> fst (sendToClient st now i ev) \<and> absent i (snd (sendToClient st now i ev))) \<and>
     (\<forall>c ctl. map_of (clients st) i = Some c \<and> isConnected c \<and>
          enqueue (controllers st (controller c)) (formatSSEEvent ev) = Some ctl \<longrightarrow>
        fst (sendToClient st now i ev) \<and>
        queue ctl = queue (controllers st (controller c)) @ [formatSSEEvent ev] \<and>
        snd (sendToClient st now i ev) =
          st\<lparr>controllers := (controllers st)(controller c := ctl),
             clients := AList.update i (c\<lparr>lastPing := now\<rparr>) (clients st)\<rparr>)"
proof (intro conjI allI impI)
  assume "map_of (clients st) i = None"
  then show "sendToClient st now i ev = (False, st)"
    by (simp add: sendToClient_def)
next
  assume "map_of (clients st) i = None"
  with assms show "absent i st" by (rule registry_ok_absent)
next
  fix c assume "map_of (clients st) i = Some c \<and> \<not> isConnected c"
  then show "sendToClient st now i ev = (False, st)"
    by (simp add: sendToClient_def)
next
  fix c
  assume a: "map_of (clients st) i = Some c \<and> isConnected c \<and>
      enqueue (controllers st (controller c)) (formatSSEEvent ev) = None"
  then have s: "sendToClient st now i ev = (False, removeClient st i)"
    by (simp add: sendToClient_def)
  then show "\<not> fst (sendToClient st now i ev)" by simp
  have "registry_ok (removeClient st i)"
    using assms
    by (simp add: registry_ok_def user_index_ok_removeClient session_index_ok_removeClient)
  then have "absent i (removeClient st i)"
    by (rule registry_ok_absent) (simp add: map_of_clients_removeClient)
  with s show "absent i (snd (sendToClient st now i ev))" by simp
next
  fix c ctl
  assume a: "map_of (clients st) i = Some c \<and> isConnected c \<and>
      enqueue (controllers st (controller c)) (formatSSEEvent ev) = Some ctl"
  then show "fst (sendToClient st now i ev)"
    by (simp add: sendToClient_def)
  from a show "queue ctl = queue (controllers st (controller c)) @ [formatSSEEvent ev]"
    by (auto simp: enqueue_def split: if_splits)
  from a show "snd (sendToClient st now i ev) =
      st\<lparr>controllers := (controllers st)(controller c := ctl),
         clients := AList.update i (c\<lparr>lastPing := now\<rparr>) (clients st)\<rparr>"
    by (simp add: sendToClient_def)
qed

text \<open>
  Claim C1 as stated fails for a registered client whose \<^verbatim>\<open>isConnected\<close> is false: the
  guard at the head of \<^verbatim>\<open>sendToClient\<close> returns false and the client stays in the
  primary map and in both indexes.
\<close>

theorem sendToClient_counterexample:
  "\<not> fst (sendToClient
       (addClient (newSSEManager plain_config open_controllers)
          ((new_client ''c1'' (Some ''user123'') (Some ''session456'') 0)\<lparr>isConnected := False\<rparr>))
       1 ''c1'' notification) \<and>
   \<not> absent ''c1'' (snd (sendToClient
       (addClient (newSSEManager plain_config open_controllers)
          ((new_client ''c1'' (Some ''user123'') (Some ''session456'') 0)\<lparr>isConnected := False\<rparr>))
       1 ''c1'' notification)) \<and>
   getClientCount (snd (sendToClient
       (addClient (newSSEManager plain_config open_controllers)
          ((new_client ''c1'' (Some ''user123'') (Some ''session456'') 0)\<lparr>isConnected := False\<rparr>))
       1 ''c1'' notification)) = 1"
  by code_simp

lemma registry_ok_one_client: "registry_ok (one_client ctls)"
proof -
  have "registry_ok (perform (newSSEManager plain_config ctls) (0, AddClient client1))"
    using registry_ok_new
    by (rule registry_ok_perform) (simp add: newSSEManager_def resolveConfig_def plain_config_def)
  then show ?thesis by (simp add: one_client_def)
qed

text \<open>
  The amended claim on the registry with one client: an unknown id, the client behind a
  closed controller, and the client behind an open one.
\<close>

theorem sendToClient_outcomes_witness:
  "sendToClient (one_client open_controllers) 1 ''c2'' notification =
     (False, one_client open_controllers) \<and>
   absent ''c2'' (one_client open_controllers) \<and>
   \<not> fst (sendToClient (one_client closed_controllers) 1 ''c1'' notification) \<and>
   absent ''c1'' (snd (sendToClient (one_client closed_controllers) 1 ''c1'' notification)) \<and>
   fst (sendToClient (one_client open_controllers) 1 ''c1'' notification)"
proof -
  have unknown: "map_of (clients (one_client open_controllers)) ''c2'' = None"
    by code_simp
  have failed: "map_of (clients (one_client closed_controllers)) ''c1'' = Some client1 \<and>
      isConnected client1 \<and>
      enqueue (controllers (one_client closed_controllers) (controller client1))
        (formatSSEEvent notification) = None"
    by code_simp
  have sent: "map_of (clients (one_client open_controllers)) ''c1'' = Some client1 \<and>
      isConnected client1 \<and>
      enqueue (controllers (one_client open_controllers) (controller client1))
        (formatSSEEvent notification) =
      Some \<lparr>closed = False, queue = [formatSSEEvent notification]\<rparr>"
    by code_simp
  from sendToClient_outcomes [OF registry_ok_one_client, of open_controllers "''c2''" 1 notification]
    unknown
  have 1: "sendToClient (one_client open_controllers) 1 ''c2'' notification =
     (False, one_client open_controllers) \<and> absent ''c2'' (one_client open_controllers)"
    by blast
  from sendToClient_outcomes [OF registry_ok_one_client, of closed_controllers "''c1''" 1 notification]
    failed
  have 2: "\<not> fst (sendToClient (one_client closed_controllers) 1 ''c1'' notification) \<and>
     absent ''c1'' (snd (sendToClient (one_client closed_controllers) 1 ''c1'' notification))"
    by blast
  from sendToClient_outcomes [OF registry_ok_one_client, of open_controllers "''c1''" 1 notification]
    sent
  have 3: "fst (sendToClient (one_client open_controllers) 1 ''c1'' notification)"
    by blast
  from 1 2 3 show ?thesis by simp
qed

section \<open>What a group send leaves alone\<close>

lemma untouched_refl: "untouched i st st"
  by (simp add: untouched_def)

lemma untouched_trans: "untouched i st st' \<Longrightarrow> untouched i st' st'' \<Longrightarrow> untouched i st st''"
  by (simp add: untouched_def)

lemma untouched_removeClient:
  assumes "j \<noteq> i"
  shows "untouched i st (removeClient st j)"
proof (cases "map_of (clients st) j")
  case None
  then show ?thesis by (simp add: removeClient_unknown untouched_refl)
next
  case (Some c)
  with assms show ?thesis
    by (simp add: untouched_def map_of_clients_removeClient userClients_removeClient
        sessionClients_removeClient members_index_remove)
qed

lemma untouched_sendToClient:
  assumes "j \<noteq> i"
  shows "untouched i st (snd (sendToClient st now j ev))"
proof (cases rule: sendToClient_cases [of st j now ev])
  case (failed c)
  with assms show ?thesis by (simp add: untouched_removeClient)
next
  case (sent c)
  with assms show ?thesis by (simp add: untouched_def AList.update_conv')
qed (simp_all add: untouched_refl)

lemma send_loop_failed_subset:
  "set (snd (send_loop st now ev ids failed)) \<subseteq> set ids \<union> set failed"
proof (induction ids arbitrary: st failed)
  case Nil
  then show ?case by simp
next
  case (Cons j ids)
  obtain ok st' where s: "sendToClient st now j ev = (ok, st')"
    by (cases "sendToClient st now j ev")
  show ?case
  proof (cases ok)
    case True
    with s Cons [of st' failed] show ?thesis by auto
  next
    case False
    with s Cons [of st' "failed @ [j]"] show ?thesis by auto
  qed
qed

lemma untouched_send_loop:
  assumes "i \<notin> set ids"
  shows "untouched i st (fst (send_loop st now ev ids failed))"
  using assms
proof (induction ids arbitrary: st failed)
  case Nil
  then show ?case by (simp add: untouched_refl)
next
  case (Cons j ids)
  obtain ok st' where s: "sendToClient st now j ev = (ok, st')"
    by (cases "sendToClient st now j ev")
  from Cons.prems have "j \<noteq> i" by auto
  then have a: "untouched i st st'"
    using untouched_sendToClient [of j i st now ev] s by simp
  from Cons.prems have "i \<notin> set ids" by simp
  then have b: "untouched i st' (fst (send_loop st' now ev ids
      (if ok then failed else failed @ [j])))"
    by (rule Cons.IH)
  from untouched_trans [OF a b] s show ?case by simp
qed

lemma untouched_foldl_removeClient:
  assumes "i \<notin> set ids"
  shows "untouched i st (foldl removeClient st ids)"
  using assms
proof (induction ids arbitrary: st)
  case Nil
  then show ?case by (simp add: untouched_refl)
next
  case (Cons j ids)
  from Cons.prems have "j \<noteq> i" "i \<notin> set ids" by auto
  then have a: "untouched i st (removeClient st j)"
    and b: "untouched i (removeClient st j) (foldl removeClient (removeClient st j) ids)"
    by (simp_all add: untouched_removeClient Cons.IH)
  from untouched_trans [OF a b] show ?case by simp
qed

lemma untouched_group_send:
  assumes "i \<notin> set ids"
  shows "untouched i st
    (case send_loop st now ev ids [] of (st', failed) \<Rightarrow> foldl removeClient st' failed)"
proof -
  obtain st' failed where s: "send_loop st now ev ids [] = (st', failed)"
    by (cases "send_loop st now ev ids []")
  have "set failed \<subseteq> set ids"
    using send_loop_failed_subset [of st now ev ids "[]"] s by simp
  with assms have "i \<notin> set failed" by auto
  then have b: "untouched i st' (foldl removeClient st' failed)"
    by (rule untouched_foldl_removeClient)
  have a: "untouched i st st'"
    using untouched_send_loop [OF assms, of st now ev "[]"] s by simp
  from untouched_trans [OF a b] s show ?thesis by simp
qed

text \<open>
  Claim C10. In a registry whose user index is consistent with the primary map (as it is
  in every state the public operations lead to), \<^verbatim>\<open>sendToUser(U, e)\<close> leaves every
  registered connection whose \<^verbatim>\<open>userId\<close> is not \<open>U\<close> untouched: the record it has in the
  primary map, \<^verbatim>\<open>lastPing\<close> and every other field, is the one it had, and it is in the
  same session set and the same user set as before.
\<close>

theorem sendToUser_frame:
  assumes "user_index_ok st" "map_of (clients st) i = Some c" "userId c \<noteq> Some u"
  shows "map_of (clients (sendToUser st now u ev)) i = Some c \<and>
         untouched i st (sendToUser st now u ev)"
proof -
  from assms(1) have "\<And>k j. j \<in> set (members (userClients st) k) \<longleftrightarrow>
      (\<exists>c. map_of (clients st) j = Some c \<and> userId c = Some k \<and> k \<noteq> [])"
    by (simp add: user_index_ok_def index_ok_def index_consistent_def)
  with assms(2,3) have "i \<notin> set (members (userClients st) u)" by simp
  then have "untouched i st (sendToUser st now u ev)"
  proof (cases "map_of (userClients st) u")
    case None
    then show ?thesis by (simp add: sendToUser_def untouched_refl)
  next
    case (Some ids)
    with \<open>i \<notin> set (members (userClients st) u)\<close> have "i \<notin> set ids"
      by (simp add: members_def)
    from untouched_group_send [OF this, of st now ev] Some show ?thesis
      by (simp add: sendToUser_def)
  qed
  with assms(2) show ?thesis by (simp add: untouched_def)
qed

lemma user_index_ok_examples:
  "user_index_ok (one_client ctls)" "user_index_ok (two_clients ctls)"
  "user_index_ok (two_users ctls)"
  by (simp_all add: one_client_def two_clients_def two_users_def user_index_ok_addClient
      user_index_ok_new)

text \<open>
  The claim on the registry with two clients of \<open>user123\<close> and one of \<open>user456\<close>: the
  client of \<open>user456\<close> is untouched by a send to \<open>user123\<close>.
\<close>

theorem sendToUser_frame_witness:
  "user_index_ok (two_users open_controllers) \<and>
   map_of (clients (two_users open_controllers)) ''c3'' = Some client3 \<and>
   userId client3 \<noteq> Some ''user123'' \<and>
   map_of (clients (sendToUser (two_users open_controllers) 7 ''user123'' notification)) ''c3''
     = Some client3 \<and>
   untouched ''c3'' (two_users open_controllers)
     (sendToUser (two_users open_controllers) 7 ''user123'' notification)"
proof -
  have r: "map_of (clients (two_users open_controllers)) ''c3'' = Some client3"
    by code_simp
  have u: "userId client3 \<noteq> Some ''user123''"
    by code_simp
  from sendToUser_frame [OF user_index_ok_examples(3) r u, of 7 notification]
    user_index_ok_examples(3) [of open_controllers] r u
  show ?thesis by simp
qed

section \<open>What a group send writes\<close>
















lemma controllers_foldl_removeClient:
  "controllers (foldl removeClient st ids) = controllers st"
  by (induction ids arbitrary: st) (simp_all add: controllers_removeClient)

lemma user_members:
  assumes "user_index_ok st"
  shows "i \<in> set (getUserClients st u) \<longleftrightarrow>
           (\<exists>c. map_of (clients st) i = Some c \<and> userId c = Some u \<and> u \<noteq> [])"
    and "distinct (getUserClients st u)"
proof -
  from assms have cons: "index_consistent (map_of (clients st)) userId (userClients st)"
    and sets: "index_sets_ok (userClients st)"
    by (simp_all add: user_index_ok_def index_ok_def)
  have g: "getUserClients st u = members (userClients st) u"
    by (simp add: getUserClients_def members_def)
  from cons have "\<And>k j. j \<in> set (members (userClients st) k) \<longleftrightarrow>
      (\<exists>c. map_of (clients st) j = Some c \<and> userId c = Some k \<and> k \<noteq> [])"
    by (simp add: index_consistent_def)
  then show "i \<in> set (getUserClients st u) \<longleftrightarrow>
      (\<exists>c. map_of (clients st) i = Some c \<and> userId c = Some u \<and> u \<noteq> [])"
    by (simp add: g)
  from sets have ds: "\<And>k s. map_of (userClients st) k = Some s \<Longrightarrow> distinct s"
    unfolding index_sets_ok_def by blast
  show "distinct (getUserClients st u)"
  proof (cases "map_of (userClients st) u")
    case None
    then show ?thesis by (simp add: getUserClients_def)
  next
    case (Some s)
    with ds [OF Some] show ?thesis by (simp add: getUserClients_def)
  qed
qed





section \<open>The ceiling on a user's connections\<close>

lemma getUserClients_members: "getUserClients st u = members (userClients st) u"
  by (simp add: getUserClients_def members_def)

lemma getClientCountForUser_members:
  "getClientCountForUser st u = length (members (userClients st) u)"
  by (simp add: getClientCountForUser_def members_def split: option.splits)

lemma ceiling_ok_members:
  "ceiling_ok st \<longleftrightarrow>
     (\<forall>u. int (length (members (userClients st) u)) \<le> maxClientsPerUser (config st))"
  by (simp add: ceiling_ok_def getClientCountForUser_members)

lemma ids_nonempty_keys: "ids_nonempty st \<longleftrightarrow> [] \<notin> fst ` set (clients st)"
  by (force simp: ids_nonempty_def)

lemma members_userClients_removeClient:
  "members (userClients (removeClient st i)) u =
     (case map_of (clients st) i of
        None \<Rightarrow> members (userClients st) u
      | Some c \<Rightarrow> if userId c = Some u \<and> u \<noteq> [] then removeAll i (members (userClients st) u)
                  else members (userClients st) u)"
  by (simp add: userClients_removeClient members_index_remove split: option.splits)

lemma length_members_removeClient:
  "length (members (userClients (removeClient st i)) u) \<le> length (members (userClients st) u)"
  by (simp add: members_userClients_removeClient split: option.splits)

lemma ceiling_ok_removeClient:
  assumes "ceiling_ok st"
  shows "ceiling_ok (removeClient st i)"
  unfolding ceiling_ok_members
proof
  fix u
  from assms have "int (length (members (userClients st) u)) \<le> maxClientsPerUser (config st)"
    by (simp add: ceiling_ok_members)
  with length_members_removeClient [of st i u]
  show "int (length (members (userClients (removeClient st i)) u))
      \<le> maxClientsPerUser (config (removeClient st i))"
    by (simp add: config_removeClient)
qed

lemma ids_nonempty_removeClient:
  assumes "ids_nonempty st"
  shows "ids_nonempty (removeClient st i)"
  using assms AList.dom_delete_subset [of i "clients st"]
  by (auto simp: ids_nonempty_keys clients_removeClient)

lemma ceiling_ok_sendToClient:
  assumes "ceiling_ok st"
  shows "ceiling_ok (snd (sendToClient st now i ev))"
proof (cases rule: sendToClient_cases [of st i now ev])
  case (failed c)
  with assms show ?thesis by (simp add: ceiling_ok_removeClient)
next
  case (sent c)
  with assms show ?thesis by (simp add: ceiling_ok_members)
qed (use assms in simp_all)

lemma ids_nonempty_sendToClient:
  assumes "ids_nonempty st"
  shows "ids_nonempty (snd (sendToClient st now i ev))"
proof (cases rule: sendToClient_cases [of st i now ev])
  case (failed c)
  with assms show ?thesis by (simp add: ids_nonempty_removeClient)
next
  case (sent c)
  then have "(i, c) \<in> set (clients st)" by (intro map_of_SomeD)
  then have "i \<in> fst ` set (clients st)" by (rule image_eqI [rotated]) simp
  with sent assms show ?thesis
    by (auto simp: ids_nonempty_keys AList.dom_update)
qed (use assms in simp_all)

lemma ceiling_ok_nonneg:
  assumes "ceiling_ok st"
  shows "0 \<le> maxClientsPerUser (config st)"
proof -
  from assms have "int (length (members (userClients st) [])) \<le> maxClientsPerUser (config st)"
    by (simp add: ceiling_ok_members)
  then show ?thesis by simp
qed

lemma ceiling_ok_destroy:
  assumes "ceiling_ok st"
  shows "ceiling_ok (destroy st)"
  using ceiling_ok_nonneg [OF assms]
  by (simp add: ceiling_ok_members destroy_def members_def)

lemma ids_nonempty_destroy: "ids_nonempty (destroy st)"
  by (simp add: ids_nonempty_def destroy_def)

text \<open>The state of \<open>addClient\<close> between the user's set receiving the id and the eviction.\<close>

lemma user_index_ok_indexed:
  assumes "user_index_ok st" "userId c = Some u" "u \<noteq> []"
  shows "user_index_ok ((after_register st c)
           \<lparr>userClients := index_add (userClients (after_register st c)) u (id_cl c)\<rparr>)"
proof -
  note ex = after_register_user_except [OF assms(1), of c]
  have here: "map_of (clients (after_register st c)) (id_cl c) = Some c"
    by (simp add: map_of_after_register)
  from index_ok_add [OF ex here assms(2,3)] show ?thesis
    by (simp add: user_index_ok_def)
qed

lemma members_indexed:
  assumes "user_index_ok st"
  shows "members (index_add (userClients (after_register st c)) u (id_cl c)) k =
           (if k = u then members (userClients (removeClient st (id_cl c))) u @ [id_cl c]
            else members (userClients (removeClient st (id_cl c))) k)"
  using members_after_index_add [OF assms, of c u]
  by (simp add: members_index_add after_register_fields)

lemma ceiling_after_user:
  assumes ok: "user_index_ok st" and ceil: "ceiling_ok st" and ids: "ids_nonempty st"
    and n: "id_cl c \<noteq> []"
  shows "ceiling_ok (after_user st c) \<and> ids_nonempty (after_user st c)"
proof -
  let ?st1 = "removeClient st (id_cl c)"
  have ceil1: "\<And>k. int (length (members (userClients ?st1) k)) \<le> maxClientsPerUser (config st)"
    using ceiling_ok_removeClient [OF ceil, of "id_cl c"]
    by (simp add: ceiling_ok_members config_removeClient)
  have ids1: "ids_nonempty ?st1" using ids by (rule ids_nonempty_removeClient)
  have idsr: "ids_nonempty (after_register st c)"
    using ids1 n
    by (auto simp: ids_nonempty_keys after_register_fields AList.dom_update
        clients_removeClient [symmetric])
  have ceilr: "ceiling_ok (after_register st c)"
    using ceil1 by (simp add: ceiling_ok_members after_register_fields)
  show ?thesis
  proof (cases "userId c = None \<or> userId c = Some []")
    case True
    then have "after_user st c = after_register st c"
      by (auto simp: after_user_def)
    with idsr ceilr show ?thesis by simp
  next
    case False
    then obtain u where u: "userId c = Some u" "u \<noteq> []" by auto
    define st' where "st' = (after_register st c)
        \<lparr>userClients := index_add (userClients (after_register st c)) u (id_cl c)\<rparr>"
    have au: "after_user st c = enforce_ceiling st' u"
      using u by (simp add: after_user_def st'_def)
    have ok': "user_index_ok st'"
      unfolding st'_def using ok u by (rule user_index_ok_indexed)
    have ids': "ids_nonempty st'"
      using idsr by (simp add: st'_def ids_nonempty_def)
    have cfg': "config st' = config st"
      by (simp add: st'_def after_register_fields)
    have mem: "\<And>k. members (userClients st') k =
        (if k = u then members (userClients ?st1) u @ [id_cl c]
         else members (userClients ?st1) k)"
      by (simp add: st'_def members_indexed [OF ok])
    have reg: "\<And>i k. i \<in> set (members (userClients st') k) \<longleftrightarrow>
        (\<exists>c. map_of (clients st') i = Some c \<and> userId c = Some k \<and> k \<noteq> [])"
      using ok' by (simp add: user_index_ok_def index_ok_def index_consistent_def)
    show ?thesis
    proof (cases rule: enforce_ceiling_cases [of st' u])
      case keep
      have "\<not> (\<exists>rest. members (userClients st') u = [] # rest)"
      proof
        assume "\<exists>rest. members (userClients st') u = [] # rest"
        then have "[] \<in> set (members (userClients st') u)" by auto
        then obtain c0 where "map_of (clients st') [] = Some c0" by (auto simp: reg)
        then have "([], c0) \<in> set (clients st')" by (rule map_of_SomeD)
        then have "[] \<in> fst ` set (clients st')" by (rule image_eqI [rotated]) simp
        with ids' show False by (simp add: ids_nonempty_keys)
      qed
      with keep(2) have "int (length (members (userClients st') u)) \<le> maxClientsPerUser (config st)"
        by (simp add: mem cfg')
      then have "ceiling_ok st'"
        using ceil1 by (simp add: ceiling_ok_members mem cfg')
      with keep(1) au ids' show ?thesis by simp
    next
      case (evict oldest rest)
      have "oldest \<in> set (members (userClients st') u)" using evict(1) by simp
      then obtain c0 where c0: "map_of (clients st') oldest = Some c0" "userId c0 = Some u"
        by (auto simp: reg)
      have "distinct (members (userClients st') u)"
        using user_members(2) [OF ok', of u] by (simp add: getUserClients_members)
      then have "oldest \<notin> set rest" using evict(1) by simp
      then have rm: "removeAll oldest (oldest # rest) = rest" by simp
      have len: "length rest = length (members (userClients ?st1) u)"
        using evict(1) mem [of u] by (metis length_Cons length_append_singleton old.nat.inject)
      have after: "\<And>k. members (userClients (removeClient st' oldest)) k =
          (if k = u then rest else members (userClients ?st1) k)"
        using c0 u(2) evict(1) rm
        by (simp add: members_userClients_removeClient mem)
      have "ceiling_ok (removeClient st' oldest)"
        using ceil1 len by (simp add: ceiling_ok_members after config_removeClient cfg')
      moreover have "ids_nonempty (removeClient st' oldest)"
        using ids' by (rule ids_nonempty_removeClient)
      ultimately show ?thesis using evict(4) au by simp
    qed
  qed
qed

lemma ceiling_addClient:
  assumes "user_index_ok st" "ceiling_ok st" "ids_nonempty st" "id_cl c \<noteq> []"
  shows "ceiling_ok (addClient st c)" "ids_nonempty (addClient st c)"
  using ceiling_after_user [OF assms]
  by (simp_all add: ceiling_ok_members ids_nonempty_def clients_addClient
      userClients_addClient config_addClient)

text \<open>
  In a consistent registry under the ceiling whose ids are not empty, every operation
  that registers no empty id leaves a registry of the same kind.
\<close>

lemma ceiling_perform:
  assumes "user_index_ok st" "ceiling_ok st" "ids_nonempty st" "adds_nonempty_id op"
  shows "user_index_ok (perform st (now, op)) \<and> ceiling_ok (perform st (now, op)) \<and>
         ids_nonempty (perform st (now, op))"
  using assms
  by (intro perform_preserves
      [where P = "\<lambda>s. user_index_ok s \<and> ceiling_ok s \<and> ids_nonempty s"
         and Q = "\<lambda>c. id_cl c \<noteq> []"])
    (simp_all add: user_index_ok_removeClient ceiling_ok_removeClient ids_nonempty_removeClient
      user_index_ok_sendToClient ceiling_ok_sendToClient ids_nonempty_sendToClient
      user_index_ok_addClient ceiling_addClient
      user_index_ok_destroy ceiling_ok_destroy ids_nonempty_destroy)

lemma eviction_of_oldest:
  assumes ok: "user_index_ok st" and ids: "ids_nonempty st"
    and u: "userId c = Some u" "u \<noteq> []"
    and fresh: "map_of (clients st) (id_cl c) = None"
    and max: "1 \<le> maxClientsPerUser (config st)"
    and full: "int (getClientCountForUser st u) = maxClientsPerUser (config st)"
  shows "\<exists>oldest rest. getUserClients st u = oldest # rest \<and>
           getUserClients (addClient st c) u = rest @ [id_cl c] \<and>
           int (getClientCountForUser (addClient st c) u) = maxClientsPerUser (config st) \<and>
           map_of (clients (addClient st c)) = ((map_of (clients st))(id_cl c \<mapsto> c))(oldest := None)"
proof -
  have st1: "removeClient st (id_cl c) = st"
    using fresh by (rule removeClient_unknown)
  from max full obtain oldest rest where ms: "members (userClients st) u = oldest # rest"
    by (cases "members (userClients st) u") (simp_all add: getClientCountForUser_members)
  define st' where "st' = (after_register st c)
      \<lparr>userClients := index_add (userClients (after_register st c)) u (id_cl c)\<rparr>"
  have au: "after_user st c = enforce_ceiling st' u"
    using u by (simp add: after_user_def st'_def)
  have ok': "user_index_ok st'"
    unfolding st'_def using ok u by (rule user_index_ok_indexed)
  have cfg': "config st' = config st"
    by (simp add: st'_def after_register_fields)
  have cl': "map_of (clients st') = (map_of (clients st))(id_cl c \<mapsto> c)"
    by (simp add: st'_def map_of_after_register)
  have mem: "members (userClients st') u = oldest # rest @ [id_cl c]"
    using members_indexed [OF ok, of c u u] ms by (simp add: st'_def st1)
  have reg: "\<And>i k. i \<in> set (members (userClients st') k) \<longleftrightarrow>
      (\<exists>c. map_of (clients st') i = Some c \<and> userId c = Some k \<and> k \<noteq> [])"
    using ok' by (simp add: user_index_ok_def index_ok_def index_consistent_def)
  have "oldest \<in> set (members (userClients st) u)" using ms by simp
  then obtain c0 where "map_of (clients st) oldest = Some c0" "userId c0 = Some u"
    using user_members(1) [OF ok, of oldest u] by (auto simp: getUserClients_members)
  with fresh have c0: "map_of (clients st') oldest = Some c0" "userId c0 = Some u"
    and ne: "oldest \<noteq> id_cl c"
    by (auto simp: cl')
  have "(oldest, c0) \<in> set (clients st)"
    using \<open>map_of (clients st) oldest = Some c0\<close> by (rule map_of_SomeD)
  then have "oldest \<in> fst ` set (clients st)" by (rule image_eqI [rotated]) simp
  moreover from ids have "[] \<notin> fst ` set (clients st)" by (simp add: ids_nonempty_keys)
  ultimately have nonempty: "oldest \<noteq> []" by metis
  have over: "int (length (members (userClients st') u)) > maxClientsPerUser (config st')"
    using full ms by (simp add: mem cfg' getClientCountForUser_members)
  have ev: "enforce_ceiling st' u = removeClient st' oldest"
  proof (cases rule: enforce_ceiling_cases [of st' u])
    case keep
    with over nonempty show ?thesis by (simp add: mem)
  next
    case (evict o' r')
    then show ?thesis by (simp add: mem)
  qed
  have "distinct (members (userClients st') u)"
    using user_members(2) [OF ok', of u] by (simp add: getUserClients_members)
  then have "removeAll oldest (members (userClients st') u) = rest @ [id_cl c]"
    by (simp add: mem)
  then have after: "members (userClients (after_user st c)) u = rest @ [id_cl c]"
    using c0 u(2) by (simp add: au ev members_userClients_removeClient)
  have "map_of (clients (after_user st c)) = ((map_of (clients st))(id_cl c \<mapsto> c))(oldest := None)"
    by (simp add: au ev map_of_clients_removeClient cl')
  moreover have "getUserClients (addClient st c) u = rest @ [id_cl c]"
    using after by (simp add: getUserClients_members userClients_addClient)
  moreover have "int (getClientCountForUser (addClient st c) u) = maxClientsPerUser (config st)"
    using after full ms
    by (simp add: getClientCountForUser_members userClients_addClient)
  moreover have "getUserClients st u = oldest # rest"
    using ms by (simp add: getUserClients_members)
  ultimately show ?thesis
    by (simp add: clients_addClient)
qed

text \<open>
  Claim C3, as amended. In a registry whose user index is consistent with the primary
  map, where no user is above the ceiling and no registered id is the empty string:
  when \<^verbatim>\<open>maxClientsPerUser\<close> is at least 1 and the non-empty user \<open>U\<close> has exactly that many
  connections, \<^verbatim>\<open>addClient\<close> with a connection of \<open>U\<close> under a fresh id evicts the oldest
  connection of \<open>U\<close> and no other, registers the new one as the newest, and leaves the
  count of \<open>U\<close> at the ceiling; and after any public operation that registers no empty
  id, no user's count is above the ceiling.
\<close>

theorem eviction_at_ceiling:
  assumes "user_index_ok st" "ceiling_ok st" "ids_nonempty st"
  shows "(\<forall>(c :: SSEClient) u. userId c = Some u \<and> u \<noteq> [] \<and> map_of (clients st) (id_cl c) = None \<and>
            1 \<le> maxClientsPerUser (config st) \<and>
            int (getClientCountForUser st u) = maxClientsPerUser (config st) \<longrightarrow>
          (\<exists>oldest rest. getUserClients st u = oldest # rest \<and>
             getUserClients (addClient st c) u = rest @ [id_cl c] \<and>
             int (getClientCountForUser (addClient st c) u) = maxClientsPerUser (config st) \<and>
             map_of (clients (addClient st c)) =
               ((map_of (clients st))(id_cl c \<mapsto> c))(oldest := None))) \<and>
         (\<forall>now op. adds_nonempty_id op \<longrightarrow> ceiling_ok (perform st (now, op)))"
proof (intro conjI allI impI)
  fix c :: SSEClient and u
  assume "userId c = Some u \<and> u \<noteq> [] \<and> map_of (clients st) (id_cl c) = None \<and>
      1 \<le> maxClientsPerUser (config st) \<and>
      int (getClientCountForUser st u) = maxClientsPerUser (config st)"
  then show "\<exists>oldest rest. getUserClients st u = oldest # rest \<and>
      getUserClients (addClient st c) u = rest @ [id_cl c] \<and>
      int (getClientCountForUser (addClient st c) u) = maxClientsPerUser (config st) \<and>
      map_of (clients (addClient st c)) = ((map_of (clients st))(id_cl c \<mapsto> c))(oldest := None)"
    using eviction_of_oldest [OF assms(1,3), of c u] by simp
next
  fix now op
  assume "adds_nonempty_id op"
  with assms show "ceiling_ok (perform st (now, op))"
    using ceiling_perform [of st op now] by simp
qed

lemma ceiling_new:
  assumes "0 \<le> maxClientsPerUser (resolveConfig cfg)"
  shows "ceiling_ok (newSSEManager cfg ctls)" "ids_nonempty (newSSEManager cfg ctls)"
  using assms
  by (simp_all add: ceiling_ok_members ids_nonempty_def newSSEManager_def members_def)

lemma ceiling_run:
  assumes "user_index_ok st \<and> ceiling_ok st \<and> ids_nonempty st"
    "\<forall>op \<in> snd ` set ops. adds_nonempty_id op"
  shows "user_index_ok (run st ops) \<and> ceiling_ok (run st ops) \<and> ids_nonempty (run st ops)"
proof (rule run_preserves
    [where P = "\<lambda>s. user_index_ok s \<and> ceiling_ok s \<and> ids_nonempty s"])
  fix s now op
  assume s: "user_index_ok s \<and> ceiling_ok s \<and> ids_nonempty s" and "op \<in> snd ` set ops"
  with assms(2) have "adds_nonempty_id op" by blast
  with s show "user_index_ok (perform s (now, op)) \<and> ceiling_ok (perform s (now, op)) \<and>
      ids_nonempty (perform s (now, op))"
    by (intro ceiling_perform) simp_all
qed (rule assms(1))

lemma at_ceiling_ok: "user_index_ok at_ceiling \<and> ceiling_ok at_ceiling \<and> ids_nonempty at_ceiling"
  unfolding at_ceiling_def
proof (rule ceiling_run)
  show "user_index_ok (newSSEManager (max_config 2) open_controllers) \<and>
      ceiling_ok (newSSEManager (max_config 2) open_controllers) \<and>
      ids_nonempty (newSSEManager (max_config 2) open_controllers)"
    by (simp add: user_index_ok_new ceiling_new resolveConfig_def max_config_def
        plain_config_def)
  show "\<forall>op \<in> snd ` set [(0, AddClient client1), (0, AddClient client2)]. adds_nonempty_id op"
    by (simp add: client1_def client2_def new_client_def)
qed

text \<open>
  The amended claim with a ceiling of 2, after \<open>c1\<close> and \<open>c2\<close> of \<open>user123\<close> have
  connected: adding \<open>c4\<close> of the same user evicts \<open>c1\<close>, and the user's connections are
  \<open>c2\<close>, \<open>c4\<close>.
\<close>

theorem eviction_at_ceiling_witness:
  "user_index_ok at_ceiling \<and> ceiling_ok at_ceiling \<and> ids_nonempty at_ceiling \<and>
   getUserClients at_ceiling ''user123'' = [''c1'', ''c2''] \<and>
   getUserClients (addClient at_ceiling client4) ''user123'' = [''c2'', ''c4''] \<and>
   map_of (clients (addClient at_ceiling client4)) ''c1'' = None \<and>
   ceiling_ok (perform at_ceiling (0, AddClient client4))"
proof -
  from at_ceiling_ok have h: "user_index_ok at_ceiling" "ceiling_ok at_ceiling"
    "ids_nonempty at_ceiling" by simp_all
  note t = eviction_at_ceiling [OF h]
  have pre: "userId client4 = Some ''user123'' \<and> ''user123'' \<noteq> [] \<and>
      map_of (clients at_ceiling) (id_cl client4) = None \<and>
      1 \<le> maxClientsPerUser (config at_ceiling) \<and>
      int (getClientCountForUser at_ceiling ''user123'') = maxClientsPerUser (config at_ceiling)"
    by code_simp
  have before: "getUserClients at_ceiling ''user123'' = [''c1'', ''c2'']" "id_cl client4 = ''c4''"
    by code_simp+
  from t pre obtain oldest rest where
    "getUserClients at_ceiling ''user123'' = oldest # rest"
    "getUserClients (addClient at_ceiling client4) ''user123'' = rest @ [id_cl client4]"
    "map_of (clients (addClient at_ceiling client4)) =
       ((map_of (clients at_ceiling))(id_cl client4 \<mapsto> client4))(oldest := None)"
    by blast
  with before have 1: "getUserClients (addClient at_ceiling client4) ''user123'' = [''c2'', ''c4'']"
    and 2: "map_of (clients (addClient at_ceiling client4)) ''c1'' = None"
    by simp_all
  have "adds_nonempty_id (AddClient client4)" by code_simp
  with t have 3: "ceiling_ok (perform at_ceiling (0, AddClient client4))" by blast
  from h before 1 2 3 show ?thesis by simp
qed

text \<open>
  Claim C3 as stated fails in two places. With a ceiling of 1 and a registered id that is
  the empty string, the only connection of \<open>user123\<close>: the test \<^verbatim>\<open>if (oldestClientId)\<close>
  is false for it, nothing is evicted, and the user has 2 connections. With a ceiling of
  0 the user has exactly 0 connections, and the connection added is itself the one
  evicted.
\<close>

theorem eviction_at_ceiling_counterexample:
  "maxClientsPerUser (config empty_id) = 1 \<and>
   getClientCountForUser empty_id ''user123'' = 1 \<and>
   getClientCountForUser (addClient empty_id client2) ''user123'' = 2 \<and>
   maxClientsPerUser (config (newSSEManager (max_config 0) open_controllers)) = 0 \<and>
   getClientCountForUser (newSSEManager (max_config 0) open_controllers) ''user123'' = 0 \<and>
   map_of (clients (addClient (newSSEManager (max_config 0) open_controllers) client1)) ''c1''
     = None"
  by code_simp

section \<open>\<^verbatim>\<open>cleanup\<close>\<close>

lemma clients_foldl_removeClient:
  "clients (foldl removeClient st ids) = filter (\<lambda>e. fst e \<notin> set ids) (clients st)"
proof (induction ids arbitrary: st)
  case Nil
  then show ?case by simp
next
  case (Cons i ids)
  have "clients (removeClient st i) = filter (\<lambda>e. fst e \<noteq> i) (clients st)"
    by (simp add: clients_removeClient AList.delete_eq) (rule filter_cong, auto)
  with Cons show ?case by (simp add: conj_commute)
qed

lemma members_index_remove_registered:
  assumes "index_ok key cl idx"
  shows "members (case map_of cl j of None \<Rightarrow> idx | Some c \<Rightarrow> index_remove idx (key c) j) k =
           removeAll j (members idx k)"
proof -
  from assms have cons: "\<And>k i. i \<in> set (members idx k) \<longleftrightarrow>
      (\<exists>c. map_of cl i = Some c \<and> key c = Some k \<and> k \<noteq> [])"
    by (simp add: index_ok_def index_consistent_def)
  show ?thesis
  proof (cases "map_of cl j")
    case None
    then have "j \<notin> set (members idx k)" by (simp add: cons)
    with None show ?thesis by simp
  next
    case (Some c)
    show ?thesis
    proof (cases "key c = Some k \<and> k \<noteq> []")
      case True
      with Some show ?thesis by (simp add: members_index_remove)
    next
      case False
      with Some have "j \<notin> set (members idx k)" by (auto simp: cons)
      with Some False show ?thesis by (simp add: members_index_remove)
    qed
  qed
qed

lemma members_user_removeClient:
  assumes "user_index_ok st"
  shows "members (userClients (removeClient st j)) k = removeAll j (members (userClients st) k)"
  using members_index_remove_registered [of userId "clients st" "userClients st" j k] assms
  by (simp add: user_index_ok_def userClients_removeClient)

lemma members_session_removeClient:
  assumes "session_index_ok st"
  shows "members (sessionClients (removeClient st j)) k =
           removeAll j (members (sessionClients st) k)"
  using members_index_remove_registered [of sessionId "clients st" "sessionClients st" j k] assms
  by (simp add: session_index_ok_def sessionClients_removeClient)

lemma filter_removeAll_notin:
  "filter (\<lambda>i. i \<notin> set ids) (removeAll j xs) = filter (\<lambda>i. i \<notin> set (j # ids)) xs"
  by (induction xs) auto

lemma members_user_foldl_removeClient:
  assumes "user_index_ok st"
  shows "members (userClients (foldl removeClient st ids)) k =
           filter (\<lambda>i. i \<notin> set ids) (members (userClients st) k)"
  using assms
proof (induction ids arbitrary: st)
  case Nil
  then show ?case by simp
next
  case (Cons j ids)
  have "user_index_ok (removeClient st j)"
    using Cons.prems by (rule user_index_ok_removeClient)
  from Cons.IH [OF this] show ?case
    by (simp only: foldl_Cons members_user_removeClient [OF Cons.prems] filter_removeAll_notin)
qed

lemma members_session_foldl_removeClient:
  assumes "session_index_ok st"
  shows "members (sessionClients (foldl removeClient st ids)) k =
           filter (\<lambda>i. i \<notin> set ids) (members (sessionClients st) k)"
  using assms
proof (induction ids arbitrary: st)
  case Nil
  then show ?case by simp
next
  case (Cons j ids)
  have "session_index_ok (removeClient st j)"
    using Cons.prems by (rule session_index_ok_removeClient)
  from Cons.IH [OF this] show ?case
    by (simp only: foldl_Cons members_session_removeClient [OF Cons.prems]
        filter_removeAll_notin)
qed

text \<open>The ids \<open>cleanup\<close> collects are the stale ones.\<close>

lemma cleanup_ids:
  assumes "distinct (map fst (clients st))"
  shows "i \<in> set (map fst (filter (\<lambda>(clientId, client).
            now - lastPing client > heartbeatInterval (config st) * 2) (clients st)))
         \<longleftrightarrow> stale st now i"
proof
  assume "i \<in> set (map fst (filter (\<lambda>(clientId, client).
      now - lastPing client > heartbeatInterval (config st) * 2) (clients st)))"
  then obtain c where "(i, c) \<in> set (clients st)"
    "now - lastPing c > heartbeatInterval (config st) * 2" by auto
  with assms show "stale st now i" by (simp add: stale_def)
next
  assume "stale st now i"
  then obtain c where c: "map_of (clients st) i = Some c"
    "now - lastPing c > heartbeatInterval (config st) * 2"
    by (auto simp: stale_def split: option.splits)
  from c(1) have "(i, c) \<in> set (clients st)" by (rule map_of_SomeD)
  with c(2) have "(i, c) \<in> set (filter (\<lambda>(clientId, client).
      now - lastPing client > heartbeatInterval (config st) * 2) (clients st))"
    by simp
  then show "i \<in> set (map fst (filter (\<lambda>(clientId, client).
      now - lastPing client > heartbeatInterval (config st) * 2) (clients st)))"
    unfolding set_map by (rule image_eqI [rotated]) simp
qed

lemma stale_entry:
  assumes "distinct (map fst (clients st))" "e \<in> set (clients st)"
  shows "stale st now (fst e) \<longleftrightarrow> now - lastPing (snd e) > heartbeatInterval (config st) * 2"
proof -
  from assms have "map_of (clients st) (fst e) = Some (snd e)" by (cases e) simp
  then show ?thesis by (simp add: stale_def)
qed

text \<open>
  Claim C7. In every registry state, at every time \<open>now\<close>, \<^verbatim>\<open>cleanup\<close> removes exactly
  the connections whose \<^verbatim>\<open>lastPing\<close> is older than twice the heartbeat interval and no
  other: the primary map keeps, in their order and unchanged, exactly the entries with
  \<open>now - lastPing \<le> 2 * heartbeatInterval\<close>, and no controller is touched. The removal
  is from the indexes as well: when the user index is consistent with the primary map (as
  it is in every state the public operations lead to), every user set keeps exactly its
  ids that are not stale, and the index stays consistent (a set left empty is deleted);
  and likewise for the session index when it is consistent (as it is in every state the
  public operations lead to when \<^verbatim>\<open>maxClientsPerUser\<close> is at least 1).
\<close>

theorem cleanup_removes_stale:
  assumes "distinct (map fst (clients st))"
  shows "clients (cleanup st now) =
           filter (\<lambda>(clientId, client).
                     \<not> now - lastPing client > 2 * heartbeatInterval (config st)) (clients st) \<and>
         controllers (cleanup st now) = controllers st \<and>
         (user_index_ok st \<longrightarrow>
            (\<forall>u. getUserClients (cleanup st now) u =
                   filter (\<lambda>i. \<not> stale st now i) (getUserClients st u)) \<and>
            user_index_ok (cleanup st now)) \<and>
         (session_index_ok st \<longrightarrow>
            (\<forall>s. members (sessionClients (cleanup st now)) s =
                   filter (\<lambda>i. \<not> stale st now i) (members (sessionClients st) s)) \<and>
            session_index_ok (cleanup st now))"
proof -
  let ?ids = "map fst (filter (\<lambda>(clientId, client).
      now - lastPing client > heartbeatInterval (config st) * 2) (clients st))"
  note d = assms
  have c: "cleanup st now = foldl removeClient st ?ids"
    by (simp add: cleanup_def)
  have ids: "\<And>i. i \<notin> set ?ids \<longleftrightarrow> \<not> stale st now i"
    using cleanup_ids [OF d, of _ now] by simp
  have "filter (\<lambda>e. fst e \<notin> set ?ids) (clients st) =
      filter (\<lambda>(clientId, client).
          \<not> now - lastPing client > 2 * heartbeatInterval (config st)) (clients st)"
  proof (rule filter_cong [OF refl])
    fix e assume "e \<in> set (clients st)"
    from stale_entry [OF d this, of now] show "(fst e \<notin> set ?ids) =
        (case e of (clientId, client) \<Rightarrow>
           \<not> now - lastPing client > 2 * heartbeatInterval (config st))"
      unfolding ids by (simp add: case_prod_unfold mult.commute)
  qed
  then have 1: "clients (cleanup st now) =
      filter (\<lambda>(clientId, client).
          \<not> now - lastPing client > 2 * heartbeatInterval (config st)) (clients st)"
    unfolding c by (simp only: clients_foldl_removeClient)
  have 2: "getUserClients (cleanup st now) u =
      filter (\<lambda>i. \<not> stale st now i) (getUserClients st u)"
    if "user_index_ok st" for u
    unfolding c getUserClients_members members_user_foldl_removeClient [OF that] ids ..
  have 3: "user_index_ok (cleanup st now)" if "user_index_ok st"
    unfolding c using that
    by (intro foldl_removeClient_preserves [where P = user_index_ok])
      (simp_all add: user_index_ok_removeClient)
  have 4: "controllers (cleanup st now) = controllers st"
    unfolding c by (rule controllers_foldl_removeClient)
  have 5: "members (sessionClients (cleanup st now)) s =
      filter (\<lambda>i. \<not> stale st now i) (members (sessionClients st) s)"
    if "session_index_ok st" for s
    unfolding c members_session_foldl_removeClient [OF that] ids ..
  have 6: "session_index_ok (cleanup st now)" if "session_index_ok st"
    unfolding c using that
    by (intro foldl_removeClient_preserves [where P = session_index_ok])
      (simp_all add: session_index_ok_removeClient)
  from 1 2 3 4 5 6 show ?thesis by blast
qed

lemma controllers_addClient: "controllers (addClient st c) = controllers st"
  by (simp add: addClient_def Let_def controllers_removeClient
      split: option.splits list.splits)

lemma controllers_two_clients: "controllers (two_clients ctls) = ctls"
  by (simp add: two_clients_def one_client_def controllers_addClient newSSEManager_def)

lemma registry_ok_two_clients: "registry_ok (two_clients ctls)"
proof -
  have "1 \<le> maxClientsPerUser (config (one_client ctls))"
    by (simp add: one_client_def config_addClient_eq newSSEManager_def resolveConfig_def
        plain_config_def)
  with registry_ok_one_client [of ctls]
  have "registry_ok (perform (one_client ctls) (0, AddClient client2))"
    by (rule registry_ok_perform)
  then show ?thesis by (simp add: two_clients_def)
qed

text \<open>
  The claim on the registry with two clients of \<open>user123\<close> at time 60001, with the default
  heartbeat interval of 30000: the first client, with \<^verbatim>\<open>lastPing\<close> 0 and in session
  \<open>session456\<close>, goes from the primary map, from its user's set and from its session's
  set; the second, with \<^verbatim>\<open>lastPing\<close> 50000, stays.
\<close>

theorem cleanup_removes_stale_witness:
  "distinct (map fst (clients (two_clients open_controllers))) \<and>
   user_index_ok (two_clients open_controllers) \<and>
   session_index_ok (two_clients open_controllers) \<and>
   clients (two_clients open_controllers) = [(''c1'', client1), (''c2'', client2)] \<and>
   getUserClients (two_clients open_controllers) ''user123'' = [''c1'', ''c2''] \<and>
   members (sessionClients (two_clients open_controllers)) ''session456'' = [''c1''] \<and>
   clients (cleanup (two_clients open_controllers) 60001) = [(''c2'', client2)] \<and>
   controllers (cleanup (two_clients open_controllers) 60001) = open_controllers \<and>
   getUserClients (cleanup (two_clients open_controllers) 60001) ''user123'' = [''c2''] \<and>
   user_index_ok (cleanup (two_clients open_controllers) 60001) \<and>
   members (sessionClients (cleanup (two_clients open_controllers) 60001)) ''session456'' = [] \<and>
   session_index_ok (cleanup (two_clients open_controllers) 60001)"
proof -
  from registry_ok_two_clients [of open_controllers]
  have u: "user_index_ok (two_clients open_controllers)"
    and s: "session_index_ok (two_clients open_controllers)"
    by (simp_all add: registry_ok_def)
  from u have d: "distinct (map fst (clients (two_clients open_controllers)))"
    by (simp add: user_index_ok_def index_ok_def)
  note t = cleanup_removes_stale [OF d, of 60001]
  have e: "clients (two_clients open_controllers) = [(''c1'', client1), (''c2'', client2)]"
    "members (sessionClients (two_clients open_controllers)) ''session456'' = [''c1'']"
    "filter (\<lambda>(clientId, client).
          \<not> 60001 - lastPing client
              > 2 * heartbeatInterval (config (two_clients open_controllers)))
        (clients (two_clients open_controllers)) = [(''c2'', client2)]"
    "getUserClients (two_clients open_controllers) ''user123'' = [''c1'', ''c2'']"
    "filter (\<lambda>i. \<not> stale (two_clients open_controllers) 60001 i)
       (getUserClients (two_clients open_controllers) ''user123'') = [''c2'']"
    "filter (\<lambda>i. \<not> stale (two_clients open_controllers) 60001 i)
       (members (sessionClients (two_clients open_controllers)) ''session456'') = []"
    by code_simp+
  from t s have 5: "members (sessionClients (cleanup (two_clients open_controllers) 60001))
      ''session456'' = filter (\<lambda>i. \<not> stale (two_clients open_controllers) 60001 i)
       (members (sessionClients (two_clients open_controllers)) ''session456'')"
    and 6: "session_index_ok (cleanup (two_clients open_controllers) 60001)"
    by blast+
  from t u have 2: "getUserClients (cleanup (two_clients open_controllers) 60001) ''user123'' =
      filter (\<lambda>i. \<not> stale (two_clients open_controllers) 60001 i)
       (getUserClients (two_clients open_controllers) ''user123'')"
    and 3: "user_index_ok (cleanup (two_clients open_controllers) 60001)"
    by blast+
  from t have 1: "clients (cleanup (two_clients open_controllers) 60001) =
      filter (\<lambda>(clientId, client).
          \<not> 60001 - lastPing client
              > 2 * heartbeatInterval (config (two_clients open_controllers)))
        (clients (two_clients open_controllers))"
    and 4: "controllers (cleanup (two_clients open_controllers) 60001) =
      controllers (two_clients open_controllers)"
    by blast+
  from d u s e 1 2 3 4 5 6 show ?thesis by (simp add: controllers_two_clients)
qed

section \<open>Counting registrations\<close>

lemma untouched_not_removed: "\<not> list_ex (touches i) ops \<Longrightarrow> \<not> removed_after i ops"
  by (induction ops) (auto split: if_splits)

lemma added_touched: "i \<in> set (added_ids ops) \<Longrightarrow> list_ex (touches i) ops"
  by (induction ops rule: added_ids.induct) auto

lemma touched_not_added_removed:
  "list_ex (touches i) ops \<Longrightarrow> i \<notin> set (added_ids ops) \<Longrightarrow> removed_after i ops"
proof (induction ops)
  case Nil
  then show ?case by simp
next
  case (Cons op ops)
  show ?case
  proof (cases "list_ex (touches i) ops")
    case True
    moreover from Cons.prems(2) have "i \<notin> set (added_ids ops)"
      by (cases op) auto
    ultimately show ?thesis using Cons.IH by simp
  next
    case False
    with Cons.prems show ?thesis by (cases op) auto
  qed
qed

lemma live_add:
  assumes "id_cl c = n"
  shows "{i \<in> insert n K \<union> set (added_ids rest). \<not> removed_after i rest} =
         {i \<in> K \<union> set (added_ids (AddClient c # rest)). \<not> removed_after i (AddClient c # rest)}"
proof -
  have "removed_after i (AddClient c # rest) = removed_after i rest" for i
    using untouched_not_removed [of i rest] by auto
  with assms show ?thesis by auto
qed

lemma live_remove:
  "{i \<in> (K - {j}) \<union> set (added_ids rest). \<not> removed_after i rest} =
   {i \<in> K \<union> set (added_ids (RemoveClient j # rest)). \<not> removed_after i (RemoveClient j # rest)}"
proof -
  have other: "removed_after i (RemoveClient j # rest) = removed_after i rest" if "i \<noteq> j" for i
    using untouched_not_removed [of i rest] that by auto
  have same: "\<not> removed_after j (RemoveClient j # rest) \<longleftrightarrow>
      j \<in> set (added_ids rest) \<and> \<not> removed_after j rest"
    using added_touched [of j rest] touched_not_added_removed [of j rest] by auto
  show ?thesis
  proof (intro set_eqI iffI)
    fix i
    assume "i \<in> {i \<in> (K - {j}) \<union> set (added_ids rest). \<not> removed_after i rest}"
    then show "i \<in> {i \<in> K \<union> set (added_ids (RemoveClient j # rest)).
        \<not> removed_after i (RemoveClient j # rest)}"
      using other [of i] same by (cases "i = j") auto
  next
    fix i
    assume "i \<in> {i \<in> K \<union> set (added_ids (RemoveClient j # rest)).
        \<not> removed_after i (RemoveClient j # rest)}"
    then show "i \<in> {i \<in> (K - {j}) \<union> set (added_ids rest). \<not> removed_after i rest}"
      using other [of i] same by (cases "i = j") auto
  qed
qed

lemma keys_removeClient:
  "fst ` set (clients (removeClient st i)) = fst ` set (clients st) - {i}"
proof -
  have "set (map fst (clients (removeClient st i))) = set (map fst (clients st)) - {i}"
    unfolding clients_removeClient AList.delete_keys by simp
  then show ?thesis by simp
qed

lemma keys_after_register:
  "fst ` set (clients (after_register st c)) = insert (id_cl c) (fst ` set (clients st))"
  using keys_removeClient [of st "id_cl c"]
  by (auto simp: after_register_def AList.dom_update)

lemma enforce_ceiling_under:
  assumes "int (length (members (userClients st) u)) \<le> maxClientsPerUser (config st)"
  shows "enforce_ceiling st u = st"
  using assms by (simp add: enforce_ceiling_def members_def split: option.splits)

lemma length_set_add: "length (set_add s x) \<le> Suc (length s)"
  by (simp add: set_add_def)

text \<open>An \<open>addClient\<close> that finds its user under the ceiling evicts nothing.\<close>

lemma keys_addClient:
  assumes "case userId c of None \<Rightarrow> True
           | Some u \<Rightarrow> u = [] \<or>
               int (getClientCountForUser (removeClient st (id_cl c)) u)
                 < maxClientsPerUser (config st)"
  shows "fst ` set (clients (addClient st c)) = insert (id_cl c) (fst ` set (clients st))"
proof (cases "userId c = None \<or> userId c = Some []")
  case True
  then have "after_user st c = after_register st c"
    by (auto simp: after_user_def)
  then show ?thesis by (simp add: clients_addClient keys_after_register)
next
  case False
  then obtain u where u: "userId c = Some u" "u \<noteq> []" by auto
  define st' where "st' = (after_register st c)
      \<lparr>userClients := index_add (userClients (after_register st c)) u (id_cl c)\<rparr>"
  have au: "after_user st c = enforce_ceiling st' u"
    using u by (simp add: after_user_def st'_def)
  from assms u have "int (length (members (userClients (removeClient st (id_cl c))) u))
      < maxClientsPerUser (config st)"
    by (simp add: getClientCountForUser_members)
  with length_set_add [of "members (userClients (removeClient st (id_cl c))) u" "id_cl c"]
  have "int (length (members (userClients st') u)) \<le> maxClientsPerUser (config st')"
    by (simp add: st'_def members_index_add after_register_fields)
  then have "enforce_ceiling st' u = st'" by (rule enforce_ceiling_under)
  with au show ?thesis
    by (simp add: clients_addClient st'_def keys_after_register)
qed

lemma keys_run:
  assumes "list_all (\<lambda>x. registration (snd x)) ops" "no_eviction st ops"
  shows "fst ` set (clients (run st ops)) =
           {i \<in> fst ` set (clients st) \<union> set (added_ids (map snd ops)).
              \<not> removed_after i (map snd ops)}"
  using assms
proof (induction ops arbitrary: st)
  case Nil
  then show ?case by (simp add: run_def)
next
  case (Cons x ops)
  obtain now op where x: "x = (now, op)" by (cases x)
  from Cons.prems x have reg: "registration op" "list_all (\<lambda>x. registration (snd x)) ops"
    and ne: "no_eviction (perform st (now, op)) ops" by simp_all
  have run: "run st (x # ops) = run (perform st (now, op)) ops"
    by (simp add: run_def x)
  note IH = Cons.IH [OF reg(2) ne]
  from reg(1) show ?case
  proof (cases op)
    case (AddClient c)
    with Cons.prems(2) x have "case userId c of None \<Rightarrow> True
        | Some u \<Rightarrow> u = [] \<or>
            int (getClientCountForUser (removeClient st (id_cl c)) u)
              < maxClientsPerUser (config st)"
      by simp
    then have "fst ` set (clients (perform st (now, op))) =
        insert (id_cl c) (fst ` set (clients st))"
      using AddClient by (simp add: keys_addClient)
    with IH show ?thesis
      unfolding run using live_add [of c "id_cl c" "fst ` set (clients st)" "map snd ops"]
      by (simp add: x AddClient)
  next
    case (RemoveClient j)
    then have "fst ` set (clients (perform st (now, op))) = fst ` set (clients st) - {j}"
      by (simp add: keys_removeClient)
    with IH show ?thesis
      unfolding run using live_remove [of "fst ` set (clients st)" j "map snd ops"]
      by (simp add: x RemoveClient)
  qed simp_all
qed

lemma expected_count_card:
  "expected_count ops = card {i \<in> set (added_ids ops). \<not> removed_after i ops}"
proof -
  let ?A = "remdups (added_ids ops)"
  have "length (filter (\<lambda>i. \<not> removed_after i ops) ?A) =
      length ?A - length (filter (\<lambda>i. removed_after i ops) ?A)"
    using sum_length_filter_compl [of "\<lambda>i. removed_after i ops" ?A] by simp
  moreover have "card {i \<in> set (added_ids ops). \<not> removed_after i ops} =
      length (filter (\<lambda>i. \<not> removed_after i ops) ?A)"
    using distinct_card [of "filter (\<lambda>i. \<not> removed_after i ops) ?A"] by simp
  ultimately show ?thesis by (simp add: expected_count_def)
qed

text \<open>
  Claim C4, as amended. For every finite sequence of \<^verbatim>\<open>addClient\<close> and \<^verbatim>\<open>removeClient\<close>
  calls on a new registry in which no \<^verbatim>\<open>addClient\<close> finds its user at the ceiling (no
  connection is evicted), \<^verbatim>\<open>getClientCount()\<close> afterwards is the number of distinct ids
  added minus the number of those whose last call is a removal.
\<close>

theorem client_count_of_registrations:
  assumes "list_all (\<lambda>x. registration (snd x)) ops"
    and "no_eviction (newSSEManager cfg ctls) ops"
  shows "getClientCount (run (newSSEManager cfg ctls) ops) = expected_count (map snd ops)"
proof -
  have "user_index_ok (run (newSSEManager cfg ctls) ops)"
    using user_index_ok_new by (rule user_index_ok_run)
  then have "distinct (map fst (clients (run (newSSEManager cfg ctls) ops)))"
    by (simp add: user_index_ok_def index_ok_def)
  then have "getClientCount (run (newSSEManager cfg ctls) ops) =
      card (fst ` set (clients (run (newSSEManager cfg ctls) ops)))"
    using distinct_card [of "map fst (clients (run (newSSEManager cfg ctls) ops))"]
    by (simp add: getClientCount_def)
  also have "fst ` set (clients (run (newSSEManager cfg ctls) ops)) =
      {i \<in> set (added_ids (map snd ops)). \<not> removed_after i (map snd ops)}"
    using keys_run [OF assms] by (simp add: newSSEManager_def)
  finally show ?thesis by (simp add: expected_count_card)
qed

text \<open>
  The amended claim under the default ceiling: \<open>c1\<close> and \<open>c2\<close> are added, \<open>c1\<close> is
  removed, \<open>c2\<close> is added again and \<open>c3\<close> is added; three distinct ids were added, one of
  them removed afterwards, and the count is 2.
\<close>

theorem client_count_of_registrations_witness:
  "list_all (\<lambda>x. registration (snd x)) registrations \<and>
   no_eviction (newSSEManager plain_config open_controllers) registrations \<and>
   expected_count (map snd registrations) = 2 \<and>
   getClientCount (run (newSSEManager plain_config open_controllers) registrations) = 2"
proof -
  have r: "list_all (\<lambda>x. registration (snd x)) registrations"
    by code_simp
  have n: "no_eviction (newSSEManager plain_config open_controllers) registrations"
    by code_simp
  have e: "expected_count (map snd registrations) = 2"
    by code_simp
  from client_count_of_registrations [OF r n] r n e show ?thesis by simp
qed

text \<open>
  Claim C4 as stated fails when an \<^verbatim>\<open>addClient\<close> evicts: with a ceiling of 1, two ids
  of one user are added and none is removed by a call, and the count is 1.
\<close>

theorem client_count_of_registrations_counterexample:
  "list_all (\<lambda>x. registration (snd x)) two_adds \<and>
   expected_count (map snd two_adds) = 2 \<and>
   getClientCount (run (newSSEManager (max_config 1) open_controllers) two_adds) = 1"
  by code_simp

section \<open>After \<^verbatim>\<open>destroy\<close>\<close>

text \<open>
  Claim C9. After \<^verbatim>\<open>destroy\<close> the three maps are empty, so each send operation returns
  at once (the two that return a boolean return false), leaves the whole state as it is,
  the controllers included, and the client count is 0 before and after. No model
  function has an error result here: nothing is thrown.
\<close>

theorem send_after_destroy:
  "getClientCount (destroy st) = 0 \<and>
   sendToClient (destroy st) now clientId ev = (False, destroy st) \<and>
   sendToUser (destroy st) now user ev = destroy st \<and>
   sendToSession (destroy st) now session ev = destroy st \<and>
   broadcast (destroy st) now ev excludeClientIds = destroy st \<and>
   pingClient (destroy st) now clientId = (False, destroy st)"
  by (simp add: getClientCount_def sendToClient_def sendToUser_def sendToSession_def
      broadcast_def pingClient_def destroy_def)

section \<open>The dispatch service\<close>

text \<open>
  Claim C8. When the event payload serialises, so that the registry's \<^verbatim>\<open>sendToUser\<close> is
  called, the service returns true and its manager is the one \<^verbatim>\<open>sendToUser\<close> left,
  whatever the storage adapter is: unavailable, resolving to true or to false, or
  rejecting. The same holds for the typed wrappers, which only fix the event type.
\<close>

theorem service_send_succeeds:
  assumes "stringify_event_data d now = Some text"
  shows "service_sendToUser svc now user eventType d =
           (True, svc\<lparr>sseManager := sendToUser (sseManager svc) now user
                        \<lparr>event = eventType, data = text, id_ev = None, retry = None\<rparr>\<rparr>) \<and>
         fst (sendNotification svc now user d) \<and>
         fst (sendReelUploadProgress svc now user d) \<and>
         fst (sendReelReady svc now user d) \<and>
         fst (sendUserUpdate svc now user d) \<and>
         fst (sendSystemAlert svc now user d) \<and>
         fst (sendCustomEvent svc now user eventType d)"
proof -
  have main: "service_sendToUser svc now user t d =
           (True, svc\<lparr>sseManager := sendToUser (sseManager svc) now user
                        \<lparr>event = t, data = text, id_ev = None, retry = None\<rparr>\<rparr>)" for t
    using assms
    by (simp add: service_sendToUser_def Let_def split: option.splits publish_result.splits)
  show ?thesis
    by (simp add: main sendNotification_def sendReelUploadProgress_def sendReelReady_def
        sendUserUpdate_def sendSystemAlert_def sendCustomEvent_def)
qed

text \<open>
  The claim at a service whose adapter is available and rejects every publish, on a
  registry without clients.
\<close>

theorem service_send_succeeds_witness:
  "stringify_event_data (Json ''1'') 5 =
     Some (''{'' @ quoted ''data'' @ '':1,'' @ quoted ''timestamp'' @ '':5}'') \<and>
   fst (service_sendToUser
     \<lparr>sseManager = newSSEManager
        \<lparr>cfg_heartbeatInterval = None, cfg_maxClientsPerUser = None,
         cfg_cleanupInterval = None, cfg_eventRetentionTime = None\<rparr>
        (\<lambda>a. \<lparr>closed = False, queue = []\<rparr>),
      storageAdapter = \<lparr>isAvailable = True, publish = (\<lambda>channel message. Rejects)\<rparr>\<rparr>
     5 ''user123'' ''notification'' (Json ''1''))"
proof -
  have s: "stringify_event_data (Json ''1'') 5 =
      Some (''{'' @ quoted ''data'' @ '':1,'' @ quoted ''timestamp'' @ '':5}'')"
    by (simp add: stringify_event_data_def show_int_def show_nat.simps digit_char_def)
  show ?thesis
    using s service_send_succeeds [OF s] by simp
qed

end
